theory Spec2Isabelle
  imports Main
begin

section \<open>The shared-object filename pattern\<close>

text \<open>
  \<^verbatim>\<open>enumerate_shared_libs\<close> compiles, with \<^verbatim>\<open>re.VERBOSE\<close> (white space and
  \<^verbatim>\<open>#\<close> comments are dropped), the pattern
  \<^verbatim>\<open>.*\.so\Z|.*\.so(\.\d+)+\<close>
  and tests every file name with \<^verbatim>\<open>re.match\<close>, which succeeds when some prefix of the
  name is matched by the pattern. The fragment of regular expressions it needs is
  embedded as a datatype and matched by derivatives. File names are strings of 8-bit
  characters; on these \<^verbatim>\<open>\d\<close> is the ten ASCII digits and \<^verbatim>\<open>.\<close> is every character
  but the line feed.
\<close>

datatype regex =
    Zero
  | Eps
  | EndZ
  | Dot
  | Lit char
  | Digit
  | Seq regex regex
  | Alt regex regex
  | Star regex

definition Plus :: "regex \<Rightarrow> regex" where
  "Plus r = Seq r (Star r)"

definition is_digit :: "char \<Rightarrow> bool" where
  "is_digit c = (c \<in> set ''0123456789'')"

text \<open>\<open>nullable at_end r\<close>: the expression matches the empty string at a position
  that is (\<open>at_end\<close>) or is not the end of the subject; only \<^verbatim>\<open>\Z\<close> tells them apart.\<close>

fun nullable :: "bool \<Rightarrow> regex \<Rightarrow> bool" where
  "nullable e Zero = False"
| "nullable e Eps = True"
| "nullable e EndZ = e"
| "nullable e Dot = False"
| "nullable e (Lit c) = False"
| "nullable e Digit = False"
| "nullable e (Seq r s) = (nullable e r \<and> nullable e s)"
| "nullable e (Alt r s) = (nullable e r \<or> nullable e s)"
| "nullable e (Star r) = True"

fun deriv :: "char \<Rightarrow> regex \<Rightarrow> regex" where
  "deriv c Zero = Zero"
| "deriv c Eps = Zero"
| "deriv c EndZ = Zero"
| "deriv c Dot = (if c = CHR 0x0A then Zero else Eps)"
| "deriv c (Lit d) = (if c = d then Eps else Zero)"
| "deriv c Digit = (if is_digit c then Eps else Zero)"
| "deriv c (Seq r s) =
     (if nullable False r then Alt (Seq (deriv c r) s) (deriv c s) else Seq (deriv c r) s)"
| "deriv c (Alt r s) = Alt (deriv c r) (deriv c s)"
| "deriv c (Star r) = Seq (deriv c r) (Star r)"

text \<open>\<^verbatim>\<open>re.match(r, s)\<close> as a truth value: some prefix of \<open>s\<close> is matched by \<open>r\<close>.\<close>

fun re_match :: "regex \<Rightarrow> string \<Rightarrow> bool" where
  "re_match r [] = nullable True r"
| "re_match r (c # cs) = (nullable False r \<or> re_match (deriv c r) cs)"

definition somatching :: regex where
  "somatching =
     Alt (Seq (Star Dot) (Seq (Lit CHR ''.'') (Seq (Lit CHR ''s'') (Seq (Lit CHR ''o'') EndZ))))
         (Seq (Star Dot) (Seq (Lit CHR ''.'') (Seq (Lit CHR ''s'') (Seq (Lit CHR ''o'')
            (Plus (Seq (Lit CHR ''.'') (Plus Digit)))))))"

section \<open>The file system and the object files, as the program sees them\<close>

text \<open>Exceptions that opening or parsing a file can raise.\<close>

datatype exn = PermissionError | ELFError | FileNotFoundError | OtherException string

text \<open>A Python iterator: it yields values and then stops, or raises on the way.\<close>

datatype 'a gen = Stop | Raise exn | Yield 'a "'a gen"

text \<open>A dynamic tag: \<^verbatim>\<open>tag.entry.d_tag\<close> and \<^verbatim>\<open>tag.needed\<close> (already decoded:
  \<^verbatim>\<open>bytes2str\<close> maps a byte string to the string of the same characters).\<close>

datatype tag = Tag (d_tag: string) (needed: string)

datatype elf_section = DynamicSection "tag gen" | OtherSection

text \<open>\<^verbatim>\<open>ELFFile(f)\<close> raises, or gives the iterator of the sections; \<^verbatim>\<open>open(sofile, 'rb')\<close>
  raises, or gives such a file.\<close>

datatype elffile = ELFFile_raises exn | ELFFile "elf_section gen"

datatype open_result = open_raises exn | open_ok elffile

text \<open>
  What the program reads from its environment: \<^verbatim>\<open>os.walk(d)\<close> as the list of its
  triples (empty for a directory that does not exist), \<^verbatim>\<open>os.path.islink\<close>,
  \<^verbatim>\<open>os.path.exists\<close>, \<^verbatim>\<open>open\<close> followed by the ELF parser, and
  \<^verbatim>\<open>os.environ.get("PATH")\<close>.
\<close>

record filesystem =
  walk :: "string \<Rightarrow> (string \<times> string list \<times> string list) list"
  islink :: "string \<Rightarrow> bool"
  path_exists :: "string \<Rightarrow> bool"
  open_rb :: "string \<Rightarrow> open_result"
  environ_PATH :: "string option"

text \<open>\<^verbatim>\<open>os.path.join(a, b)\<close> on POSIX, for two components.\<close>

definition path_join :: "string \<Rightarrow> string \<Rightarrow> string" where
  "path_join a b =
     (if b \<noteq> [] \<and> hd b = CHR ''/'' then b
      else if a = [] \<or> last a = CHR ''/'' then a @ b
      else a @ ''/'' @ b)"

text \<open>\<^verbatim>\<open>s.split(":")\<close>: the fields between the colons, never an empty list.\<close>

fun split_colon :: "string \<Rightarrow> string list" where
  "split_colon [] = [[]]"
| "split_colon (c # cs) =
     (if c = CHR '':'' then [] # split_colon cs
      else (case split_colon cs of [] \<Rightarrow> [[c]] | w # ws \<Rightarrow> (c # w) # ws))"

definition walk_multi_dir ::
  "filesystem \<Rightarrow> string list \<Rightarrow> (string \<times> string list \<times> string list) list" where
  "walk_multi_dir fs dirs = concat (map (walk fs) dirs)"

section \<open>The state of a run\<close>

text \<open>
  \<^verbatim>\<open>lib2required_by\<close> is a \<^verbatim>\<open>defaultdict(list)\<close>: a dictionary that keeps its keys in the
  order of their first insertion, so it is an association list. \<open>dict_append d k v\<close> is
  \<^verbatim>\<open>d[k].append(v)\<close>, which creates the entry \<open>k\<close> with an empty list when it is absent.
\<close>

type_synonym index = "(string \<times> string list) list"

fun dict_append :: "index \<Rightarrow> string \<Rightarrow> string \<Rightarrow> index" where
  "dict_append [] k v = [(k, [v])]"
| "dict_append ((k', vs) # d) k v =
     (if k' = k then (k', vs @ [v]) # d else (k', vs) # dict_append d k v)"

definition keys :: "index \<Rightarrow> string set" where
  "keys d = set (map fst d)"

definition dict_get :: "index \<Rightarrow> string \<Rightarrow> string list" where
  "dict_get d k = (case map_of d k of None \<Rightarrow> [] | Some vs \<Rightarrow> vs)"

text \<open>Where the main thread is in \<^verbatim>\<open>check\<close>, and where the worker thread is in
  \<^verbatim>\<open>worker\<close>. The candidates that the two \<^verbatim>\<open>for\<close> loops of the enumerators have still
  to visit are part of the main thread's position.\<close>

datatype main_pc =
    InLibs "(string \<times> string) list"
  | InBins "string list"
  | Joining
  | Finished "string set"

datatype worker_pc = Idle | Running string | Returned | Crashed exn

text \<open>
  The fields of the \<^verbatim>\<open>BrokenFinder\<close> object (the queue with its counter of unfinished
  tasks), what was written to the error stream (the texts given to \<^verbatim>\<open>warn\<close>, in order,
  and the set of report lines, whose order is that of a Python set), the two threads,
  and two history variables: the paths put on the queue and the paths given to
  \<^verbatim>\<open>collect_needed\<close>, in order.
\<close>

record state =
  found :: "string set"
  lib2required_by :: index
  bindirs :: "string list"
  libdirs :: "string list"
  job_queue :: "string list"
  unfinished_tasks :: nat
  warnings :: "string list"
  printed :: "string set"
  main :: main_pc
  worker :: worker_pc
  submitted :: "string list"
  processed :: "string list"

definition warn :: "state \<Rightarrow> string \<Rightarrow> state" where
  "warn s text = s\<lparr>warnings := warnings s @ [text]\<rparr>"

section \<open>The enumerators\<close>

text \<open>The pairs \<^verbatim>\<open>(fullname, fname)\<close> of the generator expression in
  \<^verbatim>\<open>enumerate_shared_libs\<close>, and the full names that \<^verbatim>\<open>enumerate_binaries\<close> visits.\<close>

definition lib_candidates :: "filesystem \<Rightarrow> string list \<Rightarrow> (string \<times> string) list" where
  "lib_candidates fs dirs =
     concat (map (\<lambda>(dpath, dnames, fnames).
                    map (\<lambda>fname. (path_join dpath fname, fname))
                      (filter (re_match somatching) fnames))
                 (walk_multi_dir fs dirs))"

definition bin_candidates :: "filesystem \<Rightarrow> string list \<Rightarrow> string list" where
  "bin_candidates fs dirs =
     concat (map (\<lambda>(dpath, dnames, fnames). map (path_join dpath) fnames)
                 (walk_multi_dir fs dirs))"

text \<open>The enumerators run to their end: the set \<^verbatim>\<open>found\<close> afterwards, and the list of
  the paths yielded.\<close>

fun shared_libs_loop ::
  "filesystem \<Rightarrow> (string \<times> string) list \<Rightarrow> string set \<Rightarrow> string set \<times> string list" where
  "shared_libs_loop fs [] fnd = (fnd, [])"
| "shared_libs_loop fs ((fullname, fname) # rest) fnd =
     (case shared_libs_loop fs rest (insert fname fnd) of
        (fnd', ys) \<Rightarrow> (fnd', if \<not> islink fs fullname then fullname # ys else ys))"

definition enumerate_shared_libs :: "filesystem \<Rightarrow> state \<Rightarrow> string set \<times> string list" where
  "enumerate_shared_libs fs self =
     shared_libs_loop fs (lib_candidates fs (libdirs self)) (found self)"

fun binaries_loop :: "filesystem \<Rightarrow> string list \<Rightarrow> string list" where
  "binaries_loop fs [] = []"
| "binaries_loop fs (fullname # rest) =
     (if \<not> islink fs fullname then fullname # binaries_loop fs rest
      else binaries_loop fs rest)"

definition enumerate_binaries :: "filesystem \<Rightarrow> state \<Rightarrow> string list" where
  "enumerate_binaries fs self = binaries_loop fs (bin_candidates fs (bindirs self))"

section \<open>The extractor\<close>

fun iter_tags :: "string \<Rightarrow> tag gen \<Rightarrow> index \<Rightarrow> index \<times> exn option" where
  "iter_tags sofile Stop d = (d, None)"
| "iter_tags sofile (Raise e) d = (d, Some e)"
| "iter_tags sofile (Yield t g) d =
     iter_tags sofile g
       (if d_tag t = ''DT_NEEDED'' then dict_append d (needed t) sofile else d)"

fun iter_sections :: "string \<Rightarrow> elf_section gen \<Rightarrow> index \<Rightarrow> index \<times> exn option" where
  "iter_sections sofile Stop d = (d, None)"
| "iter_sections sofile (Raise e) d = (d, Some e)"
| "iter_sections sofile (Yield OtherSection g) d = iter_sections sofile g d"
| "iter_sections sofile (Yield (DynamicSection tags) g) d =
     (case iter_tags sofile tags d of
        (d', Some e) \<Rightarrow> (d', Some e)
      | (d', None) \<Rightarrow> iter_sections sofile g d')"

text \<open>The body of the outer \<^verbatim>\<open>try\<close>: \<^verbatim>\<open>open\<close>, then the inner \<^verbatim>\<open>try\<close>, whose handler
  swallows \<^verbatim>\<open>ELFError\<close> only. The dictionary keeps what was appended before an
  exception.\<close>

definition open_and_parse :: "filesystem \<Rightarrow> string \<Rightarrow> index \<Rightarrow> index \<times> exn option" where
  "open_and_parse fs sofile d =
     (case open_rb fs sofile of
        open_raises e \<Rightarrow> (d, Some e)
      | open_ok f \<Rightarrow>
          (case (case f of
                   ELFFile_raises e \<Rightarrow> (d, Some e)
                 | ELFFile secs \<Rightarrow> iter_sections sofile secs d) of
             (d', r) \<Rightarrow> (d', if r = Some ELFError then None else r)))"

definition permission_text :: "string \<Rightarrow> string" where
  "permission_text sofile = ''Could not open '' @ sofile @ ''; please check permissions''"

text \<open>\<^verbatim>\<open>collect_needed\<close>: the state afterwards, and the exception that leaves the
  method, if any.\<close>

definition collect_needed :: "filesystem \<Rightarrow> state \<Rightarrow> string \<Rightarrow> state \<times> exn option" where
  "collect_needed fs self sofile =
     (case open_and_parse fs sofile (lib2required_by self) of
        (d, r) \<Rightarrow>
          (if r = Some PermissionError
           then (warn (self\<lparr>lib2required_by := d\<rparr>) (permission_text sofile), None)
           else (self\<lparr>lib2required_by := d\<rparr>, r)))"

section \<open>The run: \<^verbatim>\<open>__init__\<close>, \<^verbatim>\<open>worker\<close> and \<^verbatim>\<open>check\<close>\<close>

text \<open>\<^verbatim>\<open>BrokenFinder()\<close>, and \<^verbatim>\<open>check\<close> up to the start of its loop: the worker thread
  is started and waits in \<^verbatim>\<open>job_queue.get()\<close>.\<close>

definition init :: "filesystem \<Rightarrow> state" where
  "init fs =
     (let bd = split_colon (case environ_PATH fs of None \<Rightarrow> ''/usr/bin'' | Some p \<Rightarrow> p);
          ld = [''/usr''] @ (if path_exists fs ''/opt'' then [''/opt''] else [])
      in \<lparr>found = {}, lib2required_by = [], bindirs = bd, libdirs = ld,
          job_queue = [], unfinished_tasks = 0, warnings = [], printed = {},
          main = InLibs (lib_candidates fs ld), worker = Idle,
          submitted = [], processed = []\<rparr>)"

text \<open>\<^verbatim>\<open>job_queue.put(item)\<close>.\<close>

definition put :: "state \<Rightarrow> string \<Rightarrow> state" where
  "put s item =
     s\<lparr>job_queue := job_queue s @ [item], unfinished_tasks := Suc (unfinished_tasks s),
       submitted := submitted s @ [item]\<rparr>"

fun join_comma :: "string list \<Rightarrow> string" where
  "join_comma [] = []"
| "join_comma [x] = x"
| "join_comma (x # y # ys) = x @ '', '' @ join_comma (y # ys)"

definition report_line :: "index \<Rightarrow> string \<Rightarrow> string" where
  "report_line d missing_lib =
     missing_lib @ '' required by: '' @ join_comma (dict_get d missing_lib)"

text \<open>Lines 97 to 101 of \<^verbatim>\<open>check\<close>, after \<^verbatim>\<open>join\<close> has returned.\<close>

definition report :: "state \<Rightarrow> state" where
  "report s =
     (let missing_libs = keys (lib2required_by s) - found s;
          s1 = (if missing_libs \<noteq> {} then warn s ''The following libraries were not found''
                else s)
      in s1\<lparr>printed := report_line (lib2required_by s) ` missing_libs,
            main := Finished missing_libs\<rparr>)"

text \<open>
  One step of one of the two threads. The main thread visits one candidate, passes
  from one enumerator to the next, or returns from \<^verbatim>\<open>join\<close>, which it can do only
  when the queue's counter of unfinished tasks is zero. The worker takes an item
  from a queue that is not empty, runs \<^verbatim>\<open>collect_needed\<close> on it, and calls
  \<^verbatim>\<open>task_done\<close>; an exception that leaves \<^verbatim>\<open>collect_needed\<close> ends the thread.
  A call of \<^verbatim>\<open>collect_needed\<close> is one step, taken while the worker is \<open>Running\<close>:
  the main thread writes \<^verbatim>\<open>found\<close> and the queue only, and reads \<^verbatim>\<open>lib2required_by\<close>
  nowhere but in the step \<open>join\<close>. \<^verbatim>\<open>task_done\<close> on a counter that is zero raises
  \<^verbatim>\<open>ValueError\<close>.
\<close>

inductive step :: "filesystem \<Rightarrow> state \<Rightarrow> state \<Rightarrow> bool" for fs :: filesystem where
  lib_link:
    "main s = InLibs ((fullname, fname) # rest) \<Longrightarrow> islink fs fullname \<Longrightarrow>
     step fs s (s\<lparr>found := insert fname (found s), main := InLibs rest\<rparr>)"
| lib_put:
    "main s = InLibs ((fullname, fname) # rest) \<Longrightarrow> \<not> islink fs fullname \<Longrightarrow>
     step fs s (put (s\<lparr>found := insert fname (found s), main := InLibs rest\<rparr>) fullname)"
| libs_end:
    "main s = InLibs [] \<Longrightarrow>
     step fs s (s\<lparr>main := InBins (bin_candidates fs (bindirs s))\<rparr>)"
| bin_link:
    "main s = InBins (fullname # rest) \<Longrightarrow> islink fs fullname \<Longrightarrow>
     step fs s (s\<lparr>main := InBins rest\<rparr>)"
| bin_put:
    "main s = InBins (fullname # rest) \<Longrightarrow> \<not> islink fs fullname \<Longrightarrow>
     step fs s (put (s\<lparr>main := InBins rest\<rparr>) fullname)"
| bins_end:
    "main s = InBins [] \<Longrightarrow> step fs s (s\<lparr>main := Joining\<rparr>)"
| join:
    "main s = Joining \<Longrightarrow> unfinished_tasks s = 0 \<Longrightarrow> step fs s (report s)"
| get:
    "worker s = Idle \<Longrightarrow> job_queue s = item # q \<Longrightarrow>
     step fs s (s\<lparr>job_queue := q, worker := Running item\<rparr>)"
| run_return:
    "worker s = Running item \<Longrightarrow> collect_needed fs s item = (s', None) \<Longrightarrow>
     step fs s (s'\<lparr>worker := Returned, processed := processed s @ [item]\<rparr>)"
| run_raise:
    "worker s = Running item \<Longrightarrow> collect_needed fs s item = (s', Some e) \<Longrightarrow>
     step fs s (s'\<lparr>worker := Crashed e, processed := processed s @ [item]\<rparr>)"
| task_done:
    "worker s = Returned \<Longrightarrow> 0 < unfinished_tasks s \<Longrightarrow>
     step fs s (s\<lparr>unfinished_tasks := unfinished_tasks s - 1, worker := Idle\<rparr>)"
| task_done_error:
    "worker s = Returned \<Longrightarrow> unfinished_tasks s = 0 \<Longrightarrow>
     step fs s (s\<lparr>worker := Crashed (OtherException ''ValueError'')\<rparr>)"

inductive reachable :: "filesystem \<Rightarrow> state \<Rightarrow> bool" for fs :: filesystem where
  start: "reachable fs (init fs)"
| next_step: "reachable fs s \<Longrightarrow> step fs s s' \<Longrightarrow> reachable fs s'"

text \<open>
  The same run with the threads taken one after the other: the worker's loop over
  the submitted paths, which ends at the first exception, and \<^verbatim>\<open>check\<close> as a
  function, \<open>None\<close> when \<^verbatim>\<open>join\<close> does not return.
\<close>

fun worker_loop :: "filesystem \<Rightarrow> string list \<Rightarrow> state \<Rightarrow> state \<times> exn option" where
  "worker_loop fs [] s = (s, None)"
| "worker_loop fs (item # items) s =
     (case collect_needed fs s item of
        (s', Some e) \<Rightarrow> (s', Some e)
      | (s', None) \<Rightarrow> worker_loop fs items s')"

definition all_submitted :: "filesystem \<Rightarrow> string list" where
  "all_submitted fs =
     snd (enumerate_shared_libs fs (init fs)) @ enumerate_binaries fs (init fs)"

definition check :: "filesystem \<Rightarrow> state option" where
  "check fs =
     (let s0 = init fs;
          fnd = fst (enumerate_shared_libs fs s0);
          items = all_submitted fs
      in case worker_loop fs items s0 of
           (s1, Some e) \<Rightarrow> None
         | (s1, None) \<Rightarrow>
             Some (report (s1\<lparr>found := fnd, main := Joining,
                               submitted := items, processed := items\<rparr>)))"

section \<open>Notions used to state and prove the properties\<close>

text \<open>
  The meaning of an expression, to measure the matcher against: \<open>matches r e w\<close> says
  that \<open>r\<close> matches the string \<open>w\<close> at a place of the subject after which the subject
  is at its end if and only if \<open>e\<close>. \<open>version_group\<close> is the group \<^verbatim>\<open>(\.\d+)\<close>.
\<close>

inductive matches :: "regex \<Rightarrow> bool \<Rightarrow> string \<Rightarrow> bool" where
  m_Eps: "matches Eps e []"
| m_EndZ: "matches EndZ True []"
| m_Dot: "c \<noteq> CHR 0x0A \<Longrightarrow> matches Dot e [c]"
| m_Lit: "matches (Lit c) e [c]"
| m_Digit: "is_digit c \<Longrightarrow> matches Digit e [c]"
| m_Seq: "matches r (e \<and> w2 = []) w1 \<Longrightarrow> matches s e w2 \<Longrightarrow> matches (Seq r s) e (w1 @ w2)"
| m_AltL: "matches r e w \<Longrightarrow> matches (Alt r s) e w"
| m_AltR: "matches s e w \<Longrightarrow> matches (Alt r s) e w"
| m_StarNil: "matches (Star r) e []"
| m_StarCons: "matches r (e \<and> w2 = []) w1 \<Longrightarrow> matches (Star r) e w2
               \<Longrightarrow> matches (Star r) e (w1 @ w2)"

definition version_group :: regex where
  "version_group = Seq (Lit CHR ''.'') (Plus Digit)"

text \<open>
  What one call of \<^verbatim>\<open>collect_needed\<close> does depends on the file alone: the names it
  appends for the path (those of the \<^verbatim>\<open>DT_NEEDED\<close> tags met before the iteration
  stops or raises), and the exception raised by \<^verbatim>\<open>open\<close> or by the parser, if any.
\<close>

fun contributed_tags :: "tag gen \<Rightarrow> string list" where
  "contributed_tags Stop = []"
| "contributed_tags (Raise e) = []"
| "contributed_tags (Yield t g) =
     (if d_tag t = ''DT_NEEDED'' then needed t # contributed_tags g else contributed_tags g)"

fun tags_exn :: "tag gen \<Rightarrow> exn option" where
  "tags_exn Stop = None"
| "tags_exn (Raise e) = Some e"
| "tags_exn (Yield t g) = tags_exn g"

fun contributed_sections :: "elf_section gen \<Rightarrow> string list" where
  "contributed_sections Stop = []"
| "contributed_sections (Raise e) = []"
| "contributed_sections (Yield OtherSection g) = contributed_sections g"
| "contributed_sections (Yield (DynamicSection tags) g) =
     contributed_tags tags @ (if tags_exn tags = None then contributed_sections g else [])"

fun sections_exn :: "elf_section gen \<Rightarrow> exn option" where
  "sections_exn Stop = None"
| "sections_exn (Raise e) = Some e"
| "sections_exn (Yield OtherSection g) = sections_exn g"
| "sections_exn (Yield (DynamicSection tags) g) =
     (case tags_exn tags of Some e \<Rightarrow> Some e | None \<Rightarrow> sections_exn g)"

definition contributed :: "filesystem \<Rightarrow> string \<Rightarrow> string list" where
  "contributed fs sofile =
     (case open_rb fs sofile of
        open_raises e \<Rightarrow> []
      | open_ok (ELFFile_raises e) \<Rightarrow> []
      | open_ok (ELFFile secs) \<Rightarrow> contributed_sections secs)"

definition raised :: "filesystem \<Rightarrow> string \<Rightarrow> exn option" where
  "raised fs sofile =
     (case open_rb fs sofile of
        open_raises e \<Rightarrow> Some e
      | open_ok (ELFFile_raises e) \<Rightarrow> Some e
      | open_ok (ELFFile secs) \<Rightarrow> sections_exn secs)"

definition opened :: "filesystem \<Rightarrow> string \<Rightarrow> bool" where
  "opened fs sofile = (case open_rb fs sofile of open_raises e \<Rightarrow> False | open_ok f \<Rightarrow> True)"

text \<open>
  \<open>escaping\<close> is the exception left after the inner handler, \<open>outcome\<close> the one that
  leaves \<^verbatim>\<open>collect_needed\<close>, \<open>warned\<close> the warning it prints.
\<close>

definition escaping :: "filesystem \<Rightarrow> string \<Rightarrow> exn option" where
  "escaping fs sofile =
     (if opened fs sofile \<and> raised fs sofile = Some ELFError then None else raised fs sofile)"

definition outcome :: "filesystem \<Rightarrow> string \<Rightarrow> exn option" where
  "outcome fs sofile =
     (if escaping fs sofile = Some PermissionError then None else escaping fs sofile)"

definition warned :: "filesystem \<Rightarrow> string \<Rightarrow> string list" where
  "warned fs sofile =
     (if escaping fs sofile = Some PermissionError then [permission_text sofile] else [])"

definition add_edges :: "string \<Rightarrow> string list \<Rightarrow> index \<Rightarrow> index" where
  "add_edges sofile names d = fold (\<lambda>n d. dict_append d n sofile) names d"

definition edges_of :: "filesystem \<Rightarrow> string list \<Rightarrow> index \<Rightarrow> index" where
  "edges_of fs ps d = fold (\<lambda>p d. add_edges p (contributed fs p) d) ps d"

text \<open>
  For a parse that runs to its end, the names are those of the \<^verbatim>\<open>DT_NEEDED\<close> entries of
  the dynamic sections, in the order of the file.
\<close>

fun gen_list :: "'a gen \<Rightarrow> 'a list" where
  "gen_list Stop = []"
| "gen_list (Raise e) = []"
| "gen_list (Yield x g) = x # gen_list g"

definition dynamic_tags :: "elf_section gen \<Rightarrow> tag list" where
  "dynamic_tags secs =
     concat (map (\<lambda>sec. case sec of DynamicSection tags \<Rightarrow> gen_list tags | OtherSection \<Rightarrow> [])
                 (gen_list secs))"

definition needed_names :: "elf_section gen \<Rightarrow> string list" where
  "needed_names secs = map needed (filter (\<lambda>t. d_tag t = ''DT_NEEDED'') (dynamic_tags secs))"

text \<open>
  The candidates of a whole run, the base names under the library roots that match the
  pattern, and the invariants of the two threads: how far the main thread is in its
  enumeration, what the queue's counter counts, and what the worker has written.
\<close>

definition all_lib_candidates :: "filesystem \<Rightarrow> (string \<times> string) list" where
  "all_lib_candidates fs = lib_candidates fs (libdirs (init fs))"

definition all_bin_candidates :: "filesystem \<Rightarrow> string list" where
  "all_bin_candidates fs = bin_candidates fs (bindirs (init fs))"

definition not_links :: "filesystem \<Rightarrow> string list \<Rightarrow> string list" where
  "not_links fs ps = filter (\<lambda>p. \<not> islink fs p) ps"

definition lib_names :: "filesystem \<Rightarrow> string set" where
  "lib_names fs =
     set (concat (map (\<lambda>(dpath, dnames, fnames). filter (re_match somatching) fnames)
                      (walk_multi_dir fs (libdirs (init fs)))))"

definition final_warning :: "state \<Rightarrow> string list" where
  "final_warning s =
     (case main s of
        Finished m \<Rightarrow> (if m \<noteq> {} then [''The following libraries were not found''] else [])
      | _ \<Rightarrow> [])"

definition queue_inv :: "state \<Rightarrow> bool" where
  "queue_inv s =
     (case worker s of
        Idle \<Rightarrow> submitted s = processed s @ job_queue s
                 \<and> unfinished_tasks s = length (job_queue s)
      | Running item \<Rightarrow> submitted s = processed s @ item # job_queue s
                 \<and> unfinished_tasks s = Suc (length (job_queue s))
      | Returned \<Rightarrow> submitted s = processed s @ job_queue s
                 \<and> unfinished_tasks s = Suc (length (job_queue s))
      | Crashed e \<Rightarrow> submitted s = processed s @ job_queue s
                 \<and> unfinished_tasks s = Suc (length (job_queue s)))"

definition main_inv :: "filesystem \<Rightarrow> state \<Rightarrow> bool" where
  "main_inv fs s =
     (libdirs s = libdirs (init fs) \<and> bindirs s = bindirs (init fs) \<and>
      (case main s of
         InLibs rest \<Rightarrow>
           (\<exists>done. all_lib_candidates fs = done @ rest \<and> found s = snd ` set done
                   \<and> submitted s = not_links fs (map fst done))
       | InBins rest \<Rightarrow>
           (\<exists>done. all_bin_candidates fs = done @ rest
                   \<and> found s = snd ` set (all_lib_candidates fs)
                   \<and> submitted s = not_links fs (map fst (all_lib_candidates fs))
                                   @ not_links fs done)
       | Joining \<Rightarrow>
           found s = snd ` set (all_lib_candidates fs) \<and> submitted s = all_submitted fs
       | Finished m \<Rightarrow>
           found s = snd ` set (all_lib_candidates fs) \<and> submitted s = all_submitted fs
           \<and> m = keys (lib2required_by s) - found s
           \<and> printed s = report_line (lib2required_by s) ` m
           \<and> unfinished_tasks s = 0))"

definition data_inv :: "filesystem \<Rightarrow> state \<Rightarrow> bool" where
  "data_inv fs s =
     (lib2required_by s = edges_of fs (processed s) []
      \<and> warnings s = concat (map (warned fs) (processed s)) @ final_warning s
      \<and> (\<forall>e. worker s = Crashed e \<longrightarrow>
             processed s \<noteq> [] \<and> outcome fs (last (processed s)) = Some e
             \<and> (\<forall>p \<in> set (butlast (processed s)). outcome fs p = None))
      \<and> ((\<forall>e. worker s \<noteq> Crashed e) \<longrightarrow>
             (\<forall>p \<in> set (processed s). outcome fs p = None)))"

text \<open>
  One schedule among those of \<open>step\<close>, as a function: the main thread runs up to
  \<^verbatim>\<open>join\<close>, then the worker empties the queue, then \<^verbatim>\<open>join\<close> returns.
\<close>

definition sequential_step :: "filesystem \<Rightarrow> state \<Rightarrow> state" where
  "sequential_step fs s =
     (case main s of
        InLibs [] \<Rightarrow> s\<lparr>main := InBins (bin_candidates fs (bindirs s))\<rparr>
      | InLibs ((fullname, fname) # rest) \<Rightarrow>
          (if islink fs fullname
           then s\<lparr>found := insert fname (found s), main := InLibs rest\<rparr>
           else put (s\<lparr>found := insert fname (found s), main := InLibs rest\<rparr>) fullname)
      | InBins [] \<Rightarrow> s\<lparr>main := Joining\<rparr>
      | InBins (fullname # rest) \<Rightarrow>
          (if islink fs fullname then s\<lparr>main := InBins rest\<rparr>
           else put (s\<lparr>main := InBins rest\<rparr>) fullname)
      | Joining \<Rightarrow>
          (case worker s of
             Idle \<Rightarrow>
               (case job_queue s of
                  [] \<Rightarrow> (if unfinished_tasks s = 0 then report s else s)
                | item # q \<Rightarrow> s\<lparr>job_queue := q, worker := Running item\<rparr>)
           | Running item \<Rightarrow>
               (case collect_needed fs s item of
                  (s', None) \<Rightarrow> s'\<lparr>worker := Returned, processed := processed s @ [item]\<rparr>
                | (s', Some e) \<Rightarrow> s'\<lparr>worker := Crashed e, processed := processed s @ [item]\<rparr>)
           | Returned \<Rightarrow>
               (if 0 < unfinished_tasks s
                then s\<lparr>unfinished_tasks := unfinished_tasks s - 1, worker := Idle\<rparr>
                else s\<lparr>worker := Crashed (OtherException ''ValueError'')\<rparr>)
           | Crashed e \<Rightarrow> s)
      | Finished m \<Rightarrow> s)"

fun run_for :: "filesystem \<Rightarrow> nat \<Rightarrow> state" where
  "run_for fs 0 = init fs"
| "run_for fs (Suc n) = sequential_step fs (run_for fs n)"

section \<open>Three file systems\<close>

text \<open>
  \<open>demo_fs\<close>: a library root \<^verbatim>\<open>/usr\<close> and the search path \<^verbatim>\<open>/usr/bin:/bin\<close>, so that the
  binary root \<^verbatim>\<open>/usr/bin\<close> lies under the library root; it holds libraries, symbolic
  links, a script, a file that cannot be read, and executables. \<open>demo_final\<close> is the
  state in which \<^verbatim>\<open>check\<close> ends on it.
\<close>

definition demo_walk :: "string \<Rightarrow> (string \<times> string list \<times> string list) list" where
  "demo_walk d =
     (if d = ''/usr'' then
        [(''/usr'', [''lib'', ''bin''], []),
         (''/usr/lib'', [], [''libfoo.so.1'', ''libbar.so'', ''libln.so'', ''README'']),
         (''/usr/bin'', [], [''libx.so'', ''tool''])]
      else if d = ''/usr/bin'' then [(''/usr/bin'', [], [''libx.so'', ''tool''])]
      else if d = ''/bin'' then
        [(''/bin'', [], [''app'', ''run.sh'', ''secret'', ''sh'', ''libonly.so.3''])]
      else [])"

definition demo_open :: "string \<Rightarrow> open_result" where
  "demo_open p =
     (if p = ''/usr/lib/libfoo.so.1'' then open_ok (ELFFile (Yield OtherSection Stop))
      else if p = ''/usr/lib/libbar.so'' then
        open_ok (ELFFile (Yield OtherSection (Yield (DynamicSection
          (Yield (Tag ''DT_NEEDED'' ''libbaz.so.2'')
            (Yield (Tag ''DT_SONAME'' ''libbar.so'') Stop))) Stop)))
      else if p = ''/usr/bin/tool'' then
        open_ok (ELFFile (Yield (DynamicSection
          (Yield (Tag ''DT_NEEDED'' ''libqux.so'')
            (Yield (Tag ''DT_NEEDED'' ''libfoo.so.1'')
              (Yield (Tag ''DT_NEEDED'' ''libqux.so'') Stop)))) Stop))
      else if p = ''/bin/app'' then
        open_ok (ELFFile (Yield (DynamicSection
          (Yield (Tag ''DT_NEEDED'' ''libfoo.so.1'')
            (Yield (Tag ''DT_NEEDED'' ''libqux.so'')
              (Yield (Tag ''DT_NEEDED'' ''libonly.so.3'') Stop)))) Stop))
      else if p = ''/bin/run.sh'' then open_ok (ELFFile_raises ELFError)
      else if p = ''/bin/secret'' then open_raises PermissionError
      else if p = ''/bin/libonly.so.3'' then open_ok (ELFFile Stop)
      else open_raises FileNotFoundError)"

definition demo_fs :: filesystem where
  "demo_fs =
     \<lparr>walk = demo_walk,
      islink = (\<lambda>p. p \<in> {''/usr/lib/libln.so'', ''/usr/bin/libx.so'', ''/bin/sh''}),
      path_exists = (\<lambda>p. False),
      open_rb = demo_open,
      environ_PATH = Some ''/usr/bin:/bin''\<rparr>"

definition demo_index :: index where
  "demo_index =
     [(''libbaz.so.2'', [''/usr/lib/libbar.so'']),
      (''libqux.so'', [''/usr/bin/tool'', ''/usr/bin/tool'', ''/bin/app'']),
      (''libfoo.so.1'', [''/usr/bin/tool'', ''/bin/app'']),
      (''libonly.so.3'', [''/bin/app''])]"

definition demo_paths :: "string list" where
  "demo_paths =
     [''/usr/lib/libfoo.so.1'', ''/usr/lib/libbar.so'', ''/usr/bin/tool'', ''/bin/app'',
      ''/bin/run.sh'', ''/bin/secret'', ''/bin/libonly.so.3'']"

definition demo_final :: state where
  "demo_final =
     \<lparr>found = {''libfoo.so.1'', ''libbar.so'', ''libln.so'', ''libx.so''},
      lib2required_by = demo_index,
      bindirs = [''/usr/bin'', ''/bin''], libdirs = [''/usr''],
      job_queue = [], unfinished_tasks = 0,
      warnings = [''Could not open /bin/secret; please check permissions'',
                  ''The following libraries were not found''],
      printed = {''libbaz.so.2 required by: /usr/lib/libbar.so'',
                 ''libqux.so required by: /usr/bin/tool, /usr/bin/tool, /bin/app'',
                 ''libonly.so.3 required by: /bin/app''},
      main = Finished {''libbaz.so.2'', ''libqux.so'', ''libonly.so.3''},
      worker = Idle, submitted = demo_paths, processed = demo_paths\<rparr>"

text \<open>
  \<open>gone_fs\<close>: a file listed by the walk that is no longer there when it is opened, and
  the state in which the worker has ended on it. \<open>gdb_fs\<close>: a debugger script under
  \<^verbatim>\<open>/usr\<close> whose name continues after the version of a shared object.
\<close>

definition gone_fs :: filesystem where
  "gone_fs =
     \<lparr>walk = (\<lambda>d. if d = ''/bin'' then [(''/bin'', [], [''gone'', ''later''])] else []),
      islink = (\<lambda>p. False),
      path_exists = (\<lambda>p. False),
      open_rb = (\<lambda>p. if p = ''/bin/later'' then open_ok (ELFFile Stop)
                       else open_raises FileNotFoundError),
      environ_PATH = Some ''/bin''\<rparr>"

definition gone_crashed :: state where
  "gone_crashed =
     \<lparr>found = {}, lib2required_by = [], bindirs = [''/bin''], libdirs = [''/usr''],
      job_queue = [''/bin/later''], unfinished_tasks = 2, warnings = [], printed = {},
      main = Joining, worker = Crashed FileNotFoundError,
      submitted = [''/bin/gone'', ''/bin/later''], processed = [''/bin/gone'']\<rparr>"

definition gdb_fs :: filesystem where
  "gdb_fs =
     \<lparr>walk = (\<lambda>d. if d = ''/usr''
                    then [(''/usr/share/gdb/auto-load'', [], [''libstdc++.so.6.0.30-gdb.py''])]
                    else []),
      islink = (\<lambda>p. False),
      path_exists = (\<lambda>p. False),
      open_rb = (\<lambda>p. open_ok (ELFFile_raises ELFError)),
      environ_PATH = None\<rparr>"

section \<open>Lemmas\<close>

subsection \<open>The matcher and the pattern\<close>

inductive_cases m_ZeroE: "matches Zero e w"
inductive_cases m_EpsE: "matches Eps e w"
inductive_cases m_EndZE: "matches EndZ e w"
inductive_cases m_DotE: "matches Dot e w"
inductive_cases m_LitE: "matches (Lit c) e w"
inductive_cases m_DigitE: "matches Digit e w"
inductive_cases m_SeqE: "matches (Seq r s) e w"
inductive_cases m_AltE: "matches (Alt r s) e w"
inductive_cases m_StarE: "matches (Star r) e w"

lemma nullable_matches: "nullable e r \<Longrightarrow> matches r e []"
proof (induction r)
  case (Seq r s)
  then have "matches r (e \<and> ([]::string) = []) []" "matches s e []" by simp_all
  then have "matches (Seq r s) e ([] @ [])" by (rule m_Seq)
  then show ?case by simp
qed (auto intro: matches.intros)

lemma matches_nullable: "matches r e w \<Longrightarrow> w = [] \<Longrightarrow> nullable e r"
  by (induction rule: matches.induct) auto

lemma nullable_iff: "nullable e r \<longleftrightarrow> matches r e []"
  using nullable_matches matches_nullable by blast

lemma deriv_sound: "matches (deriv c r) e w \<Longrightarrow> matches r e (c # w)"
proof (induction r arbitrary: e w)
  case (Seq r s)
  show ?case
  proof (cases "nullable False r")
    case True
    with Seq.prems have "matches (Seq (deriv c r) s) e w \<or> matches (deriv c s) e w"
      by (auto elim: m_AltE)
    then show ?thesis
    proof
      assume "matches (Seq (deriv c r) s) e w"
      then obtain w1 w2 where w: "w = w1 @ w2" "matches (deriv c r) (e \<and> w2 = []) w1"
        "matches s e w2" by (auto elim: m_SeqE)
      then have "matches r (e \<and> w2 = []) (c # w1)" using Seq.IH(1) by blast
      then have "matches (Seq r s) e ((c # w1) @ w2)" using w(3) by (rule m_Seq)
      with w(1) show ?thesis by simp
    next
      assume "matches (deriv c s) e w"
      then have s: "matches s e (c # w)" by (rule Seq.IH(2))
      from True have "matches r (e \<and> c # w = []) []" by (simp add: nullable_iff)
      from m_Seq [OF this s] show ?thesis by simp
    qed
  next
    case False
    with Seq.prems have "matches (Seq (deriv c r) s) e w" by simp
    then obtain w1 w2 where w: "w = w1 @ w2" "matches (deriv c r) (e \<and> w2 = []) w1"
      "matches s e w2" by (auto elim: m_SeqE)
    then have "matches r (e \<and> w2 = []) (c # w1)" using Seq.IH(1) by blast
    then have "matches (Seq r s) e ((c # w1) @ w2)" using w(3) by (rule m_Seq)
    with w(1) show ?thesis by simp
  qed
next
  case (Star r)
  then have "matches (Seq (deriv c r) (Star r)) e w" by simp
  then obtain w1 w2 where w: "w = w1 @ w2" "matches (deriv c r) (e \<and> w2 = []) w1"
    "matches (Star r) e w2" by (auto elim: m_SeqE)
  then have "matches r (e \<and> w2 = []) (c # w1)" using Star.IH by blast
  then have "matches (Star r) e ((c # w1) @ w2)" using w(3) by (rule m_StarCons)
  with w(1) show ?case by simp
next
  case (Alt r1 r2)
  from Alt.prems have "matches (deriv c r1) e w \<or> matches (deriv c r2) e w"
    by (auto elim: m_AltE)
  with Alt.IH show ?case by (auto intro: m_AltL m_AltR)
qed (auto elim: m_ZeroE m_EpsE intro: matches.intros split: if_splits)

lemma deriv_complete: "matches r e w \<Longrightarrow> w = c # v \<Longrightarrow> matches (deriv c r) e v"
proof (induction arbitrary: v rule: matches.induct)
  case (m_Seq r e w2 w1 s)
  show ?case
  proof (cases w1)
    case Nil
    with m_Seq have "nullable False r" "matches (deriv c s) e v"
      by (auto simp: nullable_iff)
    then show ?thesis by (auto intro: m_AltR)
  next
    case (Cons c' w1')
    with m_Seq have "matches (deriv c r) (e \<and> w2 = []) w1'" "v = w1' @ w2" by auto
    with m_Seq.hyps(2) have "matches (Seq (deriv c r) s) e v"
      by (auto intro: matches.m_Seq)
    then show ?thesis by (auto intro: m_AltL)
  qed
next
  case (m_StarCons r e w2 w1)
  show ?case
  proof (cases w1)
    case Nil
    with m_StarCons show ?thesis by simp
  next
    case (Cons c' w1')
    with m_StarCons have "matches (deriv c r) (e \<and> w2 = []) w1'" "v = w1' @ w2" by auto
    with m_StarCons.hyps(2) show ?thesis by (auto intro: matches.m_Seq)
  qed
qed (auto intro: matches.intros)

lemma deriv_iff: "matches (deriv c r) e w \<longleftrightarrow> matches r e (c # w)"
  using deriv_sound deriv_complete by blast

lemma re_match_iff:
  "re_match r s \<longleftrightarrow> (\<exists>w1 w2. s = w1 @ w2 \<and> matches r (w2 = []) w1)"
proof (induction s arbitrary: r)
  case Nil
  then show ?case by (simp add: nullable_iff)
next
  case (Cons c cs)
  have "(\<exists>w1 w2. c # cs = w1 @ w2 \<and> matches r (w2 = []) w1)
        \<longleftrightarrow> matches r False [] \<or> (\<exists>w1 w2. cs = w1 @ w2 \<and> matches r (w2 = []) (c # w1))"
    (is "?L \<longleftrightarrow> ?R")
  proof
    assume ?L
    then obtain w1 w2 where w: "c # cs = w1 @ w2" "matches r (w2 = []) w1" by blast
    show ?R
    proof (cases w1)
      case Nil
      with w show ?thesis by auto
    next
      case (Cons c' w1')
      with w show ?thesis by auto
    qed
  next
    assume ?R
    then show ?L
    proof
      assume "matches r False []"
      then have "c # cs = [] @ (c # cs) \<and> matches r (c # cs = []) []" by simp
      then show ?L by blast
    next
      assume "\<exists>w1 w2. cs = w1 @ w2 \<and> matches r (w2 = []) (c # w1)"
      then obtain w1 w2 where "cs = w1 @ w2" "matches r (w2 = []) (c # w1)" by blast
      then have "c # cs = (c # w1) @ w2 \<and> matches r (w2 = []) (c # w1)" by simp
      then show ?L by blast
    qed
  qed
  then show ?case by (simp add: Cons.IH nullable_iff deriv_iff)
qed

inductive_simps matches_Lit: "matches (Lit c) e w"
inductive_simps matches_Digit: "matches Digit e w"
inductive_simps matches_EndZ: "matches EndZ e w"
inductive_simps matches_Seq: "matches (Seq r s) e w"
inductive_simps matches_Alt: "matches (Alt r s) e w"

lemma star_dot_only: "matches r0 e w \<Longrightarrow> r0 = Star Dot \<Longrightarrow> CHR 0x0A \<notin> set w"
  by (induction rule: matches.induct) (auto elim: m_DotE)

lemma star_dot_all: "CHR 0x0A \<notin> set w \<Longrightarrow> matches (Star Dot) e w"
proof (induction w)
  case Nil
  show ?case by (rule m_StarNil)
next
  case (Cons c w)
  then have "matches Dot (e \<and> w = []) [c]" "matches (Star Dot) e w"
    by (auto intro: m_Dot)
  then have "matches (Star Dot) e ([c] @ w)" by (rule m_StarCons)
  then show ?case by simp
qed

lemma matches_star_dot: "matches (Star Dot) e w \<longleftrightarrow> CHR 0x0A \<notin> set w"
  using star_dot_only star_dot_all by blast

lemma version_group_head:
  "matches version_group e w \<Longrightarrow> \<exists>d rest. w = CHR ''.'' # d # rest \<and> is_digit d"
  by (auto simp: version_group_def Plus_def matches_Seq matches_Lit matches_Digit)

lemma version_groups_head:
  "matches (Plus version_group) e w \<Longrightarrow> \<exists>d rest. w = CHR ''.'' # d # rest \<and> is_digit d"
  unfolding Plus_def [of version_group] matches_Seq
  using version_group_head by fastforce

lemma version_groups_one:
  assumes "is_digit d"
  shows "matches (Plus version_group) e [CHR ''.'', d]"
proof -
  have "matches Digit (e \<and> ([]::string) = []) [d]" using assms by (rule m_Digit)
  then have "matches (Seq Digit (Star Digit)) e ([d] @ [])"
    using m_StarNil by (rule m_Seq)
  then have "matches (Plus Digit) e [d]" by (simp add: Plus_def)
  with m_Lit have "matches (Seq (Lit CHR ''.'') (Plus Digit)) e ([CHR ''.''] @ [d])"
    by (rule m_Seq)
  then have "matches version_group (e \<and> ([]::string) = []) [CHR ''.'', d]"
    by (simp add: version_group_def)
  then have "matches (Seq version_group (Star version_group)) e ([CHR ''.'', d] @ [])"
    using m_StarNil by (rule m_Seq)
  then show ?thesis by (simp add: Plus_def)
qed

lemma somatching_iff:
  "re_match somatching s \<longleftrightarrow>
     (\<exists>p. s = p @ ''.so'' \<and> CHR 0x0A \<notin> set p)
     \<or> (\<exists>p d rest. s = p @ ''.so.'' @ d # rest \<and> is_digit d \<and> CHR 0x0A \<notin> set p)"
  (is "?M \<longleftrightarrow> ?A \<or> ?B")
proof -
  have som: "somatching =
     Alt (Seq (Star Dot) (Seq (Lit CHR ''.'') (Seq (Lit CHR ''s'') (Seq (Lit CHR ''o'') EndZ))))
         (Seq (Star Dot) (Seq (Lit CHR ''.'') (Seq (Lit CHR ''s'') (Seq (Lit CHR ''o'')
            (Plus version_group)))))"
    by (simp add: somatching_def version_group_def)
  have first: "matches (Seq (Star Dot) (Seq (Lit CHR ''.'') (Seq (Lit CHR ''s'')
                  (Seq (Lit CHR ''o'') EndZ)))) e w
       \<longleftrightarrow> e \<and> (\<exists>p. w = p @ ''.so'' \<and> CHR 0x0A \<notin> set p)" for e w
    by (auto simp: matches_Seq matches_Lit matches_EndZ matches_star_dot)
  have second_only: "\<exists>p d rest. w = p @ ''.so.'' @ d # rest \<and> is_digit d \<and> CHR 0x0A \<notin> set p"
    if "matches (Seq (Star Dot) (Seq (Lit CHR ''.'') (Seq (Lit CHR ''s'')
                  (Seq (Lit CHR ''o'') (Plus version_group))))) e w" for e w
  proof -
    from that obtain p g where "w = p @ ''.so'' @ g" "CHR 0x0A \<notin> set p"
      "matches (Plus version_group) e g"
      by (auto simp: matches_Seq [of "Star Dot"] matches_Seq [of "Lit c" for c] matches_Lit
          matches_star_dot)
    with version_groups_head [of e g] show ?thesis by auto
  qed
  have second_if: "matches (Seq (Star Dot) (Seq (Lit CHR ''.'') (Seq (Lit CHR ''s'')
                  (Seq (Lit CHR ''o'') (Plus version_group))))) e (p @ ''.so.'' @ [d])"
    if "is_digit d" "CHR 0x0A \<notin> set p" for e p d
  proof -
    have g: "matches (Plus version_group) e [CHR ''.'', d]"
      using that(1) by (rule version_groups_one)
    have "matches (Seq (Lit CHR ''o'') (Plus version_group)) e ([CHR ''o''] @ [CHR ''.'', d])"
      using m_Lit g by (rule m_Seq)
    then have "matches (Seq (Lit CHR ''s'') (Seq (Lit CHR ''o'') (Plus version_group))) e
        ([CHR ''s''] @ [CHR ''o'', CHR ''.'', d])"
      using m_Lit by (intro m_Seq) simp_all
    then have "matches (Seq (Lit CHR ''.'') (Seq (Lit CHR ''s'') (Seq (Lit CHR ''o'')
        (Plus version_group)))) e ([CHR ''.''] @ [CHR ''s'', CHR ''o'', CHR ''.'', d])"
      using m_Lit by (intro m_Seq) simp_all
    with star_dot_all [OF that(2)]
    have "matches (Seq (Star Dot) (Seq (Lit CHR ''.'') (Seq (Lit CHR ''s'') (Seq (Lit CHR ''o'')
        (Plus version_group))))) e (p @ [CHR ''.'', CHR ''s'', CHR ''o'', CHR ''.'', d])"
      by (intro m_Seq) simp_all
    then show ?thesis by simp
  qed
  show ?thesis
  proof
    assume ?M
    then obtain w1 w2 where w: "s = w1 @ w2" "matches somatching (w2 = []) w1"
      by (auto simp: re_match_iff)
    from w(2) show "?A \<or> ?B" unfolding som matches_Alt
    proof
      assume "matches (Seq (Star Dot) (Seq (Lit CHR ''.'') (Seq (Lit CHR ''s'')
                  (Seq (Lit CHR ''o'') EndZ)))) (w2 = []) w1"
      with w(1) have ?A by (auto simp: first)
      then show ?thesis ..
    next
      assume "matches (Seq (Star Dot) (Seq (Lit CHR ''.'') (Seq (Lit CHR ''s'')
                  (Seq (Lit CHR ''o'') (Plus version_group))))) (w2 = []) w1"
      from second_only [OF this] obtain p d rest where
        "w1 = p @ ''.so.'' @ d # rest" "is_digit d" "CHR 0x0A \<notin> set p" by blast
      with w(1) have "s = p @ ''.so.'' @ d # (rest @ w2) \<and> is_digit d \<and> CHR 0x0A \<notin> set p"
        by simp
      then have ?B by blast
      then show ?thesis ..
    qed
  next
    assume "?A \<or> ?B"
    then show ?M
    proof
      assume ?A
      then obtain p where "s = p @ ''.so''" "CHR 0x0A \<notin> set p" by blast
      then have "s = s @ [] \<and> matches somatching (([]::string) = []) s"
        unfolding som matches_Alt by (simp add: first)
      then show ?M unfolding re_match_iff by blast
    next
      assume ?B
      then obtain p d rest where p: "s = p @ ''.so.'' @ d # rest" "is_digit d"
        "CHR 0x0A \<notin> set p" by blast
      from second_if [OF p(2,3), of "rest = []"] p(1)
      have "s = (p @ ''.so.'' @ [d]) @ rest \<and> matches somatching (rest = []) (p @ ''.so.'' @ [d])"
        unfolding som matches_Alt by simp
      then show ?M unfolding re_match_iff by blast
    qed
  qed
qed

subsection \<open>The extractor and the dictionary\<close>

lemma iter_tags_eq:
  "iter_tags sofile g d = (add_edges sofile (contributed_tags g) d, tags_exn g)"
  by (induction g arbitrary: d) (simp_all add: add_edges_def)

lemma add_edges_Nil [simp]: "add_edges sofile [] d = d"
  by (simp add: add_edges_def)

lemma add_edges_Cons [simp]:
  "add_edges sofile (n # names) d = add_edges sofile names (dict_append d n sofile)"
  by (simp add: add_edges_def)

lemma add_edges_append:
  "add_edges sofile (xs @ ys) d = add_edges sofile ys (add_edges sofile xs d)"
  by (simp add: add_edges_def)

lemma iter_sections_eq:
  "iter_sections sofile g d = (add_edges sofile (contributed_sections g) d, sections_exn g)"
proof (induction g arbitrary: d)
  case (Yield x g)
  then show ?case
    by (cases x) (auto simp: iter_tags_eq add_edges_append split: option.splits)
qed (simp_all add: add_edges_def)

lemma open_and_parse_eq:
  "open_and_parse fs sofile d = (add_edges sofile (contributed fs sofile) d, escaping fs sofile)"
  by (auto simp: open_and_parse_def contributed_def escaping_def raised_def opened_def
      iter_sections_eq add_edges_def split: open_result.splits elffile.splits)

lemma collect_needed_eq:
  "collect_needed fs s sofile =
     (s\<lparr>lib2required_by := add_edges sofile (contributed fs sofile) (lib2required_by s),
        warnings := warnings s @ warned fs sofile\<rparr>, outcome fs sofile)"
  by (simp add: collect_needed_def open_and_parse_eq outcome_def warned_def warn_def)

lemma map_of_dict_append:
  "map_of (dict_append d k v) = (map_of d)(k \<mapsto> dict_get d k @ [v])"
  by (induction d) (auto simp: dict_get_def fun_eq_iff)

lemma dict_get_dict_append:
  "dict_get (dict_append d k v) k' = (if k' = k then dict_get d k @ [v] else dict_get d k')"
  by (simp add: dict_get_def map_of_dict_append)

lemma keys_dict_append: "keys (dict_append d k v) = insert k (keys d)"
  by (induction d) (force simp: keys_def)+

lemma dict_get_add_edges:
  "dict_get (add_edges sofile names d) k = dict_get d k @ replicate (count_list names k) sofile"
  by (induction names arbitrary: d) (auto simp: add_edges_def dict_get_dict_append replicate_append_same)

subsection \<open>The enumerators\<close>

lemma shared_libs_loop_eq:
  "shared_libs_loop fs cs fnd = (fnd \<union> snd ` set cs, filter (\<lambda>p. \<not> islink fs p) (map fst cs))"
  by (induction cs arbitrary: fnd) auto

lemma binaries_loop_eq: "binaries_loop fs ps = filter (\<lambda>p. \<not> islink fs p) ps"
  by (induction ps) auto

lemma all_submitted_eq:
  "all_submitted fs =
     not_links fs (map fst (all_lib_candidates fs)) @ not_links fs (all_bin_candidates fs)"
  by (simp add: all_submitted_def enumerate_shared_libs_def enumerate_binaries_def
      shared_libs_loop_eq binaries_loop_eq not_links_def all_lib_candidates_def
      all_bin_candidates_def)

subsection \<open>Invariants of the two threads\<close>

lemma queue_inv_init: "queue_inv (init fs)"
  by (simp add: queue_inv_def init_def Let_def)

lemma queue_inv_step: "step fs s s' \<Longrightarrow> queue_inv s \<Longrightarrow> queue_inv s'"
  by (induction rule: step.induct)
     (auto simp: queue_inv_def put_def report_def Let_def warn_def collect_needed_eq
           split: worker_pc.splits)

lemma queue_inv_reachable: "reachable fs s \<Longrightarrow> queue_inv s"
  by (induction rule: reachable.induct) (auto intro: queue_inv_init queue_inv_step)

lemma main_inv_init: "main_inv fs (init fs)"
  by (simp add: main_inv_def init_def Let_def all_lib_candidates_def not_links_def)

lemma main_inv_step: "step fs s s' \<Longrightarrow> queue_inv s \<Longrightarrow> main_inv fs s \<Longrightarrow> main_inv fs s'"
proof (induction rule: step.induct)
  case (lib_link s fullname fname rest)
  then obtain dn where dn: "all_lib_candidates fs = dn @ (fullname, fname) # rest"
      "found s = snd ` set dn" "submitted s = not_links fs (map fst dn)"
    by (auto simp: main_inv_def)
  have "all_lib_candidates fs = (dn @ [(fullname, fname)]) @ rest
        \<and> insert fname (found s) = snd ` set (dn @ [(fullname, fname)])
        \<and> submitted s = not_links fs (map fst (dn @ [(fullname, fname)]))"
    using dn lib_link.hyps by (auto simp: not_links_def)
  then show ?case using lib_link.prems lib_link.hyps
    unfolding main_inv_def by (fastforce simp del: append_assoc)
next
  case (lib_put s fullname fname rest)
  then obtain dn where dn: "all_lib_candidates fs = dn @ (fullname, fname) # rest"
      "found s = snd ` set dn" "submitted s = not_links fs (map fst dn)"
    by (auto simp: main_inv_def)
  have "all_lib_candidates fs = (dn @ [(fullname, fname)]) @ rest
        \<and> insert fname (found s) = snd ` set (dn @ [(fullname, fname)])
        \<and> submitted s @ [fullname] = not_links fs (map fst (dn @ [(fullname, fname)]))"
    using dn lib_put.hyps by (auto simp: not_links_def)
  then show ?case using lib_put.prems lib_put.hyps
    unfolding main_inv_def put_def by (fastforce simp del: append_assoc)
next
  case (libs_end s)
  then show ?case
    by (auto simp: main_inv_def all_bin_candidates_def not_links_def)
next
  case (bin_link s fullname rest)
  then obtain dn where dn: "all_bin_candidates fs = dn @ fullname # rest"
      "found s = snd ` set (all_lib_candidates fs)"
      "submitted s = not_links fs (map fst (all_lib_candidates fs)) @ not_links fs dn"
    by (auto simp: main_inv_def)
  have "all_bin_candidates fs = (dn @ [fullname]) @ rest
        \<and> submitted s = not_links fs (map fst (all_lib_candidates fs))
                         @ not_links fs (dn @ [fullname])"
    using dn bin_link.hyps by (auto simp: not_links_def)
  then show ?case using bin_link.prems bin_link.hyps dn(2)
    unfolding main_inv_def by (fastforce simp del: append_assoc)
next
  case (bin_put s fullname rest)
  then obtain dn where dn: "all_bin_candidates fs = dn @ fullname # rest"
      "found s = snd ` set (all_lib_candidates fs)"
      "submitted s = not_links fs (map fst (all_lib_candidates fs)) @ not_links fs dn"
    by (auto simp: main_inv_def)
  have "all_bin_candidates fs = (dn @ [fullname]) @ rest
        \<and> submitted s @ [fullname] = not_links fs (map fst (all_lib_candidates fs))
                         @ not_links fs (dn @ [fullname])"
    using dn bin_put.hyps by (auto simp: not_links_def)
  then show ?case using bin_put.prems bin_put.hyps dn(2)
    unfolding main_inv_def put_def by (fastforce simp del: append_assoc)
next
  case (bins_end s)
  then show ?case
    by (auto simp: main_inv_def all_submitted_eq)
next
  case (join s)
  then show ?case
    by (auto simp: main_inv_def report_def Let_def warn_def)
next
  case (get s item q)
  then show ?case
    by (clarsimp simp: main_inv_def split: main_pc.splits worker_pc.splits)
next
  case (run_return s item s')
  then show ?case
    by (clarsimp simp: main_inv_def queue_inv_def collect_needed_eq split: main_pc.splits worker_pc.splits)
next
  case (run_raise s item s' e)
  then show ?case
    by (clarsimp simp: main_inv_def queue_inv_def collect_needed_eq split: main_pc.splits worker_pc.splits)
next
  case (task_done s)
  then show ?case
    by (clarsimp simp: main_inv_def queue_inv_def split: main_pc.splits worker_pc.splits)
next
  case (task_done_error s)
  then show ?case
    by (clarsimp simp: main_inv_def queue_inv_def split: main_pc.splits worker_pc.splits)
qed

lemma main_inv_reachable: "reachable fs s \<Longrightarrow> main_inv fs s"
  by (induction rule: reachable.induct)
     (auto intro: main_inv_init main_inv_step queue_inv_reachable)

lemma edges_of_snoc:
  "edges_of fs (ps @ [p]) d = add_edges p (contributed fs p) (edges_of fs ps d)"
  by (simp add: edges_of_def)

lemma not_finished_final_warning:
  "\<forall>m. main s \<noteq> Finished m \<Longrightarrow> final_warning s = []"
  by (cases "main s") (simp_all add: final_warning_def)

lemma busy_not_finished:
  assumes "queue_inv s" "main_inv fs s" "worker s \<noteq> Idle"
  shows "main s \<noteq> Finished m"
proof
  assume "main s = Finished m"
  with assms(2) have "unfinished_tasks s = 0" by (simp add: main_inv_def)
  with assms(1,3) show False by (cases "worker s") (simp_all add: queue_inv_def)
qed

lemma data_inv_init: "data_inv fs (init fs)"
  by (simp add: data_inv_def init_def Let_def edges_of_def final_warning_def)

lemma data_inv_step:
  "step fs s s' \<Longrightarrow> queue_inv s \<Longrightarrow> main_inv fs s \<Longrightarrow> data_inv fs s \<Longrightarrow> data_inv fs s'"
proof (induction rule: step.induct)
  case (join s)
  then have "final_warning s = []"
    by (simp add: final_warning_def)
  moreover have "final_warning (report s) =
      (if keys (lib2required_by s) - found s \<noteq> {}
       then [''The following libraries were not found''] else [])"
    by (simp add: final_warning_def report_def Let_def)
  ultimately show ?case using join.prems(3)
    by (simp add: data_inv_def report_def Let_def warn_def)
next
  case (get s item q)
  then have "final_warning (s\<lparr>job_queue := q, worker := Running item\<rparr>) = final_warning s"
    by (simp add: final_warning_def)
  with get show ?case
    by (simp add: data_inv_def)
next
  case (run_return s item s')
  then have nf: "\<forall>m. main s \<noteq> Finished m"
    using busy_not_finished [of s fs] by auto
  have s': "s' = s\<lparr>lib2required_by := add_edges item (contributed fs item) (lib2required_by s),
                   warnings := warnings s @ warned fs item\<rparr>" and oc: "outcome fs item = None"
    using run_return.hyps(2) by (simp_all add: collect_needed_eq)
  have fw: "final_warning s = []" using nf by (rule not_finished_final_warning)
  have fw': "final_warning (s'\<lparr>worker := Returned, processed := processed s @ [item]\<rparr>) = []"
    using nf by (intro not_finished_final_warning) (simp add: s')
  show ?case using run_return.prems(3) run_return.hyps(1) oc fw fw'
    by (simp add: data_inv_def s' edges_of_snoc)
next
  case (run_raise s item s' e)
  then have nf: "\<forall>m. main s \<noteq> Finished m"
    using busy_not_finished [of s fs] by auto
  have s': "s' = s\<lparr>lib2required_by := add_edges item (contributed fs item) (lib2required_by s),
                   warnings := warnings s @ warned fs item\<rparr>" and oc: "outcome fs item = Some e"
    using run_raise.hyps(2) by (simp_all add: collect_needed_eq)
  have fw: "final_warning s = []" using nf by (rule not_finished_final_warning)
  have fw': "final_warning (s'\<lparr>worker := Crashed e, processed := processed s @ [item]\<rparr>) = []"
    using nf by (intro not_finished_final_warning) (simp add: s')
  show ?case using run_raise.prems(3) run_raise.hyps(1) oc fw fw'
    by (simp add: data_inv_def s' edges_of_snoc)
next
  case (task_done s)
  then show ?case by (simp add: data_inv_def final_warning_def)
next
  case (task_done_error s)
  then show ?case by (simp add: queue_inv_def)
qed (simp_all add: data_inv_def put_def final_warning_def)

lemma data_inv_reachable: "reachable fs s \<Longrightarrow> data_inv fs s"
  by (induction rule: reachable.induct)
     (auto intro: data_inv_init data_inv_step queue_inv_reachable main_inv_reachable)

subsection \<open>The run as a function of the file system\<close>

lemma worker_loop_ok:
  "\<forall>p \<in> set items. outcome fs p = None \<Longrightarrow>
   worker_loop fs items s =
     (s\<lparr>lib2required_by := edges_of fs items (lib2required_by s),
        warnings := warnings s @ concat (map (warned fs) items)\<rparr>, None)"
  by (induction items arbitrary: s) (simp_all add: collect_needed_eq edges_of_def)

lemma worker_loop_raise:
  "p \<in> set items \<Longrightarrow> outcome fs p = Some e \<Longrightarrow> \<exists>e'. snd (worker_loop fs items s) = Some e'"
proof (induction items arbitrary: s)
  case (Cons a items)
  then show ?case
    by (cases "outcome fs a") (auto simp: collect_needed_eq)
qed simp

lemma worker_loop_None:
  assumes "worker_loop fs items s = (s', None)"
  shows "\<forall>p \<in> set items. outcome fs p = None"
proof (rule ballI, rule ccontr)
  fix p assume "p \<in> set items" "outcome fs p \<noteq> None"
  then obtain e where "outcome fs p = Some e" by auto
  from worker_loop_raise [OF \<open>p \<in> set items\<close> this, of s] assms show False by simp
qed

lemma finished_drained:
  assumes "reachable fs s" "main s = Finished m"
  shows "worker s = Idle \<and> job_queue s = [] \<and> unfinished_tasks s = 0
         \<and> processed s = submitted s \<and> submitted s = all_submitted fs"
proof -
  have mi: "main_inv fs s" and qi: "queue_inv s"
    using assms(1) by (rule main_inv_reachable, rule queue_inv_reachable)
  from mi assms(2) have u: "unfinished_tasks s = 0" and sub: "submitted s = all_submitted fs"
    by (simp_all add: main_inv_def)
  from qi u have "worker s = Idle \<and> job_queue s = [] \<and> submitted s = processed s"
    by (cases "worker s") (simp_all add: queue_inv_def)
  with u sub show ?thesis by simp
qed

lemma finished_is_check:
  assumes "reachable fs s" "main s = Finished m"
  shows "check fs = Some s"
proof -
  have mi: "main_inv fs s" and di: "data_inv fs s"
    using assms(1) by (rule main_inv_reachable, rule data_inv_reachable)
  note dr = finished_drained [OF assms]
  from di dr have ok: "\<forall>p \<in> set (all_submitted fs). outcome fs p = None"
    by (simp add: data_inv_def)
  have fnd: "fst (enumerate_shared_libs fs (init fs)) = snd ` set (all_lib_candidates fs)"
    by (simp add: enumerate_shared_libs_def shared_libs_loop_eq all_lib_candidates_def init_def
        Let_def)
  from mi assms(2) have m: "m = keys (lib2required_by s) - found s"
    and pr: "printed s = report_line (lib2required_by s) ` m"
    and f: "found s = snd ` set (all_lib_candidates fs)"
    and dirs: "libdirs s = libdirs (init fs)" "bindirs s = bindirs (init fs)"
    by (simp_all add: main_inv_def)
  from di dr have idx: "lib2required_by s = edges_of fs (all_submitted fs) []"
    and w: "warnings s = concat (map (warned fs) (all_submitted fs)) @ final_warning s"
    by (simp_all add: data_inv_def)
  have fw: "final_warning s =
        (if m \<noteq> {} then [''The following libraries were not found''] else [])"
    using assms(2) by (simp add: final_warning_def)
  have i0: "lib2required_by (init fs) = []" "warnings (init fs) = []"
    "job_queue (init fs) = []" "unfinished_tasks (init fs) = 0" "worker (init fs) = Idle"
    by (simp_all add: init_def Let_def)
  show ?thesis
    unfolding check_def Let_def worker_loop_ok [OF ok] fnd
    using dr m pr f dirs idx w fw assms(2) i0
    by (simp add: report_def Let_def warn_def) 
qed

subsection \<open>A run whose extractions all return can finish\<close>

lemma reach_libs_end:
  "reachable fs s \<Longrightarrow> main s = InLibs rest \<Longrightarrow> \<exists>s'. reachable fs s' \<and> main s' = InLibs []"
proof (induction rest arbitrary: s)
  case Nil
  then show ?case by blast
next
  case (Cons c rest)
  obtain fullname fname where c: "c = (fullname, fname)" by (cases c)
  show ?case
  proof (cases "islink fs fullname")
    case True
    with Cons.prems c
    have "step fs s (s\<lparr>found := insert fname (found s), main := InLibs rest\<rparr>)"
      by (auto intro: step.lib_link)
    with Cons.prems(1)
    have "reachable fs (s\<lparr>found := insert fname (found s), main := InLibs rest\<rparr>)"
      by (rule reachable.next_step)
    then show ?thesis by (rule Cons.IH) simp
  next
    case False
    with Cons.prems c
    have "step fs s (put (s\<lparr>found := insert fname (found s), main := InLibs rest\<rparr>) fullname)"
      by (auto intro: step.lib_put)
    with Cons.prems(1)
    have "reachable fs (put (s\<lparr>found := insert fname (found s), main := InLibs rest\<rparr>) fullname)"
      by (rule reachable.next_step)
    then show ?thesis by (rule Cons.IH) (simp add: put_def)
  qed
qed

lemma reach_bins_end:
  "reachable fs s \<Longrightarrow> main s = InBins rest \<Longrightarrow> \<exists>s'. reachable fs s' \<and> main s' = InBins []"
proof (induction rest arbitrary: s)
  case Nil
  then show ?case by blast
next
  case (Cons fullname rest)
  show ?case
  proof (cases "islink fs fullname")
    case True
    with Cons.prems have "step fs s (s\<lparr>main := InBins rest\<rparr>)"
      by (auto intro: step.bin_link)
    with Cons.prems(1) have "reachable fs (s\<lparr>main := InBins rest\<rparr>)"
      by (rule reachable.next_step)
    then show ?thesis by (rule Cons.IH) simp
  next
    case False
    with Cons.prems have "step fs s (put (s\<lparr>main := InBins rest\<rparr>) fullname)"
      by (auto intro: step.bin_put)
    with Cons.prems(1) have "reachable fs (put (s\<lparr>main := InBins rest\<rparr>) fullname)"
      by (rule reachable.next_step)
    then show ?thesis by (rule Cons.IH) (simp add: put_def)
  qed
qed

lemma reach_joining: "\<exists>s. reachable fs s \<and> main s = Joining"
proof -
  have "main (init fs) = InLibs (lib_candidates fs (libdirs (init fs)))"
    by (simp add: init_def Let_def)
  with reachable.start [of fs] obtain s1 where s1: "reachable fs s1" "main s1 = InLibs []"
    using reach_libs_end by blast
  then have "reachable fs (s1\<lparr>main := InBins (bin_candidates fs (bindirs s1))\<rparr>)"
    by (auto intro: reachable.next_step step.libs_end)
  then have "\<exists>s'. reachable fs s' \<and> main s' = InBins []"
    by (rule reach_bins_end) simp
  then obtain s2 where s2: "reachable fs s2" "main s2 = InBins []" by blast
  then have "reachable fs (s2\<lparr>main := Joining\<rparr>)"
    by (auto intro: reachable.next_step step.bins_end)
  then show ?thesis by (intro exI [of _ "s2\<lparr>main := Joining\<rparr>"]) simp
qed

lemma finish_returned:
  assumes "reachable fs s" "main s = Joining" "worker s = Returned"
  shows "\<exists>s'. reachable fs s' \<and> main s' = Joining \<and> worker s' = Idle
              \<and> unfinished_tasks s' = unfinished_tasks s - 1"
proof -
  from assms(1) have "queue_inv s" by (rule queue_inv_reachable)
  with assms(3) have "0 < unfinished_tasks s" by (simp add: queue_inv_def)
  with assms(3) have "step fs s (s\<lparr>unfinished_tasks := unfinished_tasks s - 1, worker := Idle\<rparr>)"
    by (rule step.task_done)
  with assms(1)
  have "reachable fs (s\<lparr>unfinished_tasks := unfinished_tasks s - 1, worker := Idle\<rparr>)"
    by (rule reachable.next_step)
  with assms(2) show ?thesis
    by (intro exI [of _ "s\<lparr>unfinished_tasks := unfinished_tasks s - 1, worker := Idle\<rparr>"]) simp
qed

lemma finish_item:
  assumes "reachable fs s" "main s = Joining" "worker s = Running item"
    and ok: "\<forall>p \<in> set (all_submitted fs). outcome fs p = None"
  shows "\<exists>s'. reachable fs s' \<and> main s' = Joining \<and> worker s' = Idle
              \<and> unfinished_tasks s' = unfinished_tasks s - 1"
proof -
  have "queue_inv s" "main_inv fs s"
    using assms(1) by (rule queue_inv_reachable, rule main_inv_reachable)
  with assms(2,3) have "submitted s = processed s @ item # job_queue s"
    "submitted s = all_submitted fs"
    by (simp_all add: queue_inv_def main_inv_def)
  then have "item \<in> set (all_submitted fs)"
    by (metis in_set_conv_decomp)
  with ok have oc: "outcome fs item = None" by simp
  define s1 where "s1 = fst (collect_needed fs s item)"
  have cn: "collect_needed fs s item = (s1, None)"
    by (simp add: s1_def collect_needed_eq oc)
  define s2 where "s2 = s1\<lparr>worker := Returned, processed := processed s @ [item]\<rparr>"
  have "step fs s s2" unfolding s2_def using assms(3) cn by (rule step.run_return)
  with assms(1) have r2: "reachable fs s2" by (rule reachable.next_step)
  have "main s2 = Joining" "worker s2 = Returned" "unfinished_tasks s2 = unfinished_tasks s"
    using assms(2) by (simp_all add: s2_def s1_def collect_needed_eq)
  with finish_returned [OF r2] show ?thesis by auto
qed

lemma drain_idle:
  assumes ok: "\<forall>p \<in> set (all_submitted fs). outcome fs p = None"
  shows "reachable fs s \<Longrightarrow> main s = Joining \<Longrightarrow> worker s = Idle \<Longrightarrow> unfinished_tasks s = n
         \<Longrightarrow> \<exists>s'. reachable fs s' \<and> main s' = Joining \<and> unfinished_tasks s' = 0"
proof (induction n arbitrary: s)
  case 0
  then show ?case by blast
next
  case (Suc n)
  from Suc.prems(1) have "queue_inv s" by (rule queue_inv_reachable)
  with Suc.prems(3,4) obtain item q where q: "job_queue s = item # q"
    by (cases "job_queue s") (auto simp: queue_inv_def)
  define s1 where "s1 = s\<lparr>job_queue := q, worker := Running item\<rparr>"
  have "step fs s s1" unfolding s1_def using Suc.prems(3) q by (rule step.get)
  with Suc.prems(1) have r1: "reachable fs s1" by (rule reachable.next_step)
  have "main s1 = Joining" "worker s1 = Running item" "unfinished_tasks s1 = Suc n"
    using Suc.prems by (simp_all add: s1_def)
  with finish_item [OF r1 _ _ ok] obtain s2 where
    "reachable fs s2" "main s2 = Joining" "worker s2 = Idle" "unfinished_tasks s2 = n"
    by auto
  then show ?case by (rule Suc.IH)
qed

lemma drain:
  assumes ok: "\<forall>p \<in> set (all_submitted fs). outcome fs p = None"
    and r: "reachable fs s" and m: "main s = Joining"
  shows "\<exists>s'. reachable fs s' \<and> main s' = Joining \<and> unfinished_tasks s' = 0"
proof (cases "worker s")
  case Idle
  with drain_idle [OF ok r m] show ?thesis by blast
next
  case (Running item)
  with finish_item [OF r m _ ok] obtain s' where
    "reachable fs s'" "main s' = Joining" "worker s' = Idle" by blast
  with drain_idle [OF ok] show ?thesis by blast
next
  case Returned
  with finish_returned [OF r m] obtain s' where
    "reachable fs s'" "main s' = Joining" "worker s' = Idle" by blast
  with drain_idle [OF ok] show ?thesis by blast
next
  case (Crashed e)
  have "queue_inv s" "main_inv fs s" "data_inv fs s"
    using r by (rule queue_inv_reachable, rule main_inv_reachable, rule data_inv_reachable)
  with Crashed m have ne: "processed s \<noteq> []"
    and oc: "outcome fs (last (processed s)) = Some e"
    and sub: "submitted s = processed s @ job_queue s" "submitted s = all_submitted fs"
    by (simp_all add: queue_inv_def main_inv_def data_inv_def)
  from ne have "last (processed s) \<in> set (processed s)" by (rule last_in_set)
  with sub have "last (processed s) \<in> set (all_submitted fs)"
    by (metis Un_iff set_append)
  with ok oc show ?thesis by simp
qed

lemma exists_finished:
  assumes ok: "\<forall>p \<in> set (all_submitted fs). outcome fs p = None"
  shows "\<exists>s m. reachable fs s \<and> main s = Finished m"
proof -
  from reach_joining drain [OF ok] obtain s where
    s: "reachable fs s" "main s = Joining" "unfinished_tasks s = 0" by blast
  then have "step fs s (report s)" by (intro step.join)
  with s(1) have "reachable fs (report s)" by (rule reachable.next_step)
  moreover have "main (report s) = Finished (keys (lib2required_by s) - found s)"
    by (simp add: report_def Let_def)
  ultimately show ?thesis by blast
qed

lemma check_Some_ok:
  assumes "check fs = Some s"
  shows "\<forall>p \<in> set (all_submitted fs). outcome fs p = None"
proof -
  obtain s1 r where wl: "worker_loop fs (all_submitted fs) (init fs) = (s1, r)"
    by (cases "worker_loop fs (all_submitted fs) (init fs)")
  with assms have "r = None"
    by (cases r) (simp_all add: check_def Let_def)
  with wl show ?thesis using worker_loop_None by blast
qed

lemma check_reachable:
  assumes "check fs = Some s"
  shows "reachable fs s"
proof -
  from exists_finished [OF check_Some_ok [OF assms]] obtain s' m where
    s': "reachable fs s'" "main s' = Finished m" by blast
  then have "check fs = Some s'" by (rule finished_is_check)
  with assms s'(1) show ?thesis by simp
qed

lemma check_None_never_finished:
  assumes "check fs = None" "reachable fs s"
  shows "main s \<noteq> Finished m"
  using finished_is_check [OF assms(2)] assms(1) by auto

lemma raising_check_None:
  assumes "p \<in> set (all_submitted fs)" "outcome fs p = Some e"
  shows "check fs = None"
proof (cases "check fs")
  case (Some s)
  from check_Some_ok [OF this] assms show ?thesis by auto
qed simp

subsection \<open>The sequential schedule\<close>

lemma demo_lib_candidates:
  "lib_candidates demo_fs [''/usr''] =
     [(''/usr/lib/libfoo.so.1'', ''libfoo.so.1''), (''/usr/lib/libbar.so'', ''libbar.so''),
      (''/usr/lib/libln.so'', ''libln.so''), (''/usr/bin/libx.so'', ''libx.so'')]"
  by (simp add: lib_candidates_def walk_multi_dir_def demo_fs_def demo_walk_def path_join_def
      somatching_def Plus_def is_digit_def)

lemma sequential_step_reachable:
  assumes "reachable fs s"
  shows "reachable fs (sequential_step fs s)"
proof -
  have "step fs s (sequential_step fs s) \<or> sequential_step fs s = s"
  proof (cases "main s")
    case (InLibs cs)
    then show ?thesis
      by (cases cs) (auto simp: sequential_step_def intro: step.intros)
  next
    case (InBins ps)
    then show ?thesis
      by (cases ps) (auto simp: sequential_step_def intro: step.intros)
  next
    case Joining
    show ?thesis
    proof (cases "worker s")
      case Idle
      with Joining show ?thesis
        by (cases "job_queue s") (auto simp: sequential_step_def intro: step.intros)
    next
      case (Running item)
      obtain s' r where "collect_needed fs s item = (s', r)"
        by (cases "collect_needed fs s item")
      with Joining Running show ?thesis
        by (cases r) (auto simp: sequential_step_def intro: step.intros)
    next
      case Returned
      with Joining step.task_done [of s fs] step.task_done_error [of s fs] show ?thesis
        by (cases "0 < unfinished_tasks s") (simp_all add: sequential_step_def)
    next
      case (Crashed e)
      with Joining show ?thesis by (simp add: sequential_step_def)
    qed
  next
    case (Finished m)
    then show ?thesis by (simp add: sequential_step_def)
  qed
  with assms show ?thesis by (auto intro: reachable.next_step)
qed

lemma run_for_reachable: "reachable fs (run_for fs n)"
  by (induction n) (simp_all add: reachable.start sequential_step_reachable)

lemma check_demo: "check demo_fs = Some demo_final"
  by code_simp

subsection \<open>Consequences of the invariants\<close>

lemma snd_candidates:
  "snd ` set (concat (map (\<lambda>(dpath, dnames, fnames).
                            map (\<lambda>fname. (path_join dpath fname, fname)) (filter P fnames)) w))
   = set (concat (map (\<lambda>(dpath, dnames, fnames). filter P fnames) w))"
proof (induction w)
  case (Cons t w)
  obtain dpath dnames fnames where "t = (dpath, dnames, fnames)" by (cases t)
  with Cons show ?case by (simp add: image_Un image_image)
qed simp

lemma lib_names_eq: "lib_names fs = snd ` set (all_lib_candidates fs)"
  unfolding lib_names_def all_lib_candidates_def lib_candidates_def
  by (rule snd_candidates [symmetric])

lemma found_subset_lib_names:
  assumes "reachable fs s"
  shows "found s \<subseteq> lib_names fs"
proof -
  from assms have mi: "main_inv fs s" by (rule main_inv_reachable)
  show ?thesis
  proof (cases "main s")
    case (InLibs rest)
    with mi obtain dn where "all_lib_candidates fs = dn @ rest" "found s = snd ` set dn"
      by (auto simp: main_inv_def)
    then show ?thesis by (auto simp: lib_names_eq)
  next
    case (InBins rest)
    with mi show ?thesis by (auto simp: main_inv_def lib_names_eq)
  qed (use mi in \<open>simp_all add: main_inv_def lib_names_eq\<close>)
qed

lemma submitted_not_links:
  assumes "reachable fs s"
  shows "\<forall>p \<in> set (submitted s). \<not> islink fs p"
proof -
  from assms have mi: "main_inv fs s" by (rule main_inv_reachable)
  show ?thesis
  proof (cases "main s")
    case (InLibs rest)
    with mi show ?thesis by (auto simp: main_inv_def not_links_def)
  next
    case (InBins rest)
    with mi show ?thesis by (auto simp: main_inv_def not_links_def)
  qed (use mi in \<open>auto simp: main_inv_def all_submitted_eq not_links_def\<close>)
qed

lemma dict_get_edges_of:
  "dict_get (edges_of fs ps d) name =
     dict_get d name @ concat (map (\<lambda>p. replicate (count_list (contributed fs p) name) p) ps)"
  by (induction ps arbitrary: d) (simp_all add: edges_of_def dict_get_add_edges)

lemma contributed_tags_ok:
  "tags_exn g = None \<Longrightarrow>
   contributed_tags g = map needed (filter (\<lambda>t. d_tag t = ''DT_NEEDED'') (gen_list g))"
  by (induction g) simp_all

lemma contributed_sections_ok:
  "sections_exn secs = None \<Longrightarrow> contributed_sections secs = needed_names secs"
proof (induction secs)
  case (Yield x g)
  then show ?case
    by (cases x) (auto simp: needed_names_def dynamic_tags_def contributed_tags_ok
        split: option.splits)
qed (simp_all add: needed_names_def dynamic_tags_def)

lemma finished_index:
  assumes "reachable fs s" "main s = Finished m"
  shows "lib2required_by s = edges_of fs (all_submitted fs) []"
  using data_inv_reachable [OF assms(1)] finished_drained [OF assms]
  by (simp add: data_inv_def)

lemma finished_worker_loop:
  assumes "reachable fs s" "main s = Finished m"
  shows "lib2required_by s = lib2required_by (fst (worker_loop fs (all_submitted fs) (init fs)))"
proof -
  from data_inv_reachable [OF assms(1)] finished_drained [OF assms]
  have ok: "\<forall>p \<in> set (all_submitted fs). outcome fs p = None"
    by (simp add: data_inv_def)
  show ?thesis
    by (simp add: worker_loop_ok [OF ok] finished_index [OF assms] init_def Let_def)
qed

subsection \<open>The example runs\<close>

lemma run_for_demo_finished: "\<exists>m. main (run_for demo_fs 35) = Finished m"
  by (simp add: eval_nat_numeral Let_def sequential_step_def init_def demo_fs_def demo_walk_def demo_open_def lib_candidates_def bin_candidates_def walk_multi_dir_def put_def path_join_def collect_needed_def open_and_parse_def report_def warn_def somatching_def Plus_def is_digit_def)

lemma run_for_demo: "run_for demo_fs 35 = demo_final"
proof -
  from run_for_demo_finished obtain m where "main (run_for demo_fs 35) = Finished m" ..
  with run_for_reachable have "check demo_fs = Some (run_for demo_fs 35)"
    by (rule finished_is_check)
  then show ?thesis by (simp add: check_demo)
qed

lemma run_for_gone:
  "run_for gone_fs (Suc (Suc (Suc (Suc (Suc (Suc 0)))))) = gone_crashed"
  by (simp add: sequential_step_def init_def gone_fs_def gone_crashed_def lib_candidates_def
      bin_candidates_def walk_multi_dir_def put_def path_join_def collect_needed_def
      open_and_parse_def)

lemma gone_crashed_reachable: "reachable gone_fs gone_crashed"
  using run_for_reachable [of gone_fs "Suc (Suc (Suc (Suc (Suc (Suc 0)))))"]
  by (simp only: run_for_gone)

lemma demo_final_reachable: "reachable demo_fs demo_final"
  by (rule check_reachable [OF check_demo])

lemma demo_lib_names:
  "lib_names demo_fs = {''libfoo.so.1'', ''libbar.so'', ''libln.so'', ''libx.so''}"
proof -
  have "libdirs (init demo_fs) = [''/usr'']"
    by (simp add: init_def Let_def demo_fs_def)
  then have "lib_names demo_fs = snd ` set (lib_candidates demo_fs [''/usr''])"
    by (simp add: lib_names_eq all_lib_candidates_def)
  then show ?thesis by (simp add: demo_lib_candidates)
qed

lemma demo_bin_candidates:
  "bin_candidates demo_fs (bindirs (init demo_fs)) =
     [''/usr/bin/libx.so'', ''/usr/bin/tool'', ''/bin/app'', ''/bin/run.sh'', ''/bin/secret'',
      ''/bin/sh'', ''/bin/libonly.so.3'']"
  by (simp add: bin_candidates_def walk_multi_dir_def init_def Let_def demo_fs_def demo_walk_def
      path_join_def)

lemma escaping_raised:
  "raised fs p = Some e \<Longrightarrow> e \<noteq> ELFError \<Longrightarrow> escaping fs p = Some e"
  by (simp add: escaping_def)

section \<open>The claims\<close>

text \<open>
  Claim C1. In every run, whatever the interleaving of the two threads, the Missing Set
  that \<^verbatim>\<open>check\<close> reports is exactly the keys of the Requirement Index minus the Available
  Set, so it shares no name with the Available Set; the report lines are those of its
  members; and the two structures are the fully accumulated ones: the set left by the
  enumeration of the library roots and the index left by the worker's loop over all
  submitted paths.
\<close>

theorem missing_is_required_minus_available:
  assumes "reachable fs s" and "main s = Finished missing_libs"
  shows "missing_libs = keys (lib2required_by s) - found s
       \<and> missing_libs \<inter> found s = {}
       \<and> printed s = report_line (lib2required_by s) ` missing_libs
       \<and> found s = fst (enumerate_shared_libs fs (init fs))
       \<and> lib2required_by s =
           lib2required_by (fst (worker_loop fs (all_submitted fs) (init fs)))"
proof -
  from assms have mi: "main_inv fs s" by (simp add: main_inv_reachable)
  have "fst (enumerate_shared_libs fs (init fs)) = snd ` set (all_lib_candidates fs)"
    by (simp add: enumerate_shared_libs_def shared_libs_loop_eq all_lib_candidates_def init_def
        Let_def)
  with mi assms(2) finished_worker_loop [OF assms] show ?thesis
    by (auto simp: main_inv_def)
qed

text \<open>
  The theorem at a concrete run.
\<close>

theorem missing_is_required_minus_available_witness:
  "reachable demo_fs demo_final
   \<and> main demo_final = Finished {''libbaz.so.2'', ''libqux.so'', ''libonly.so.3''}
   \<and> {''libbaz.so.2'', ''libqux.so'', ''libonly.so.3''}
       = keys (lib2required_by demo_final) - found demo_final
   \<and> ''libfoo.so.1'' \<in> keys (lib2required_by demo_final)
   \<and> ''libfoo.so.1'' \<in> found demo_final"
proof -
  have m: "main demo_final = Finished {''libbaz.so.2'', ''libqux.so'', ''libonly.so.3''}"
    by (simp add: demo_final_def)
  have "''libfoo.so.1'' \<in> keys (lib2required_by demo_final)"
    "''libfoo.so.1'' \<in> found demo_final"
    by (simp_all add: demo_final_def demo_index_def keys_def)
  with missing_is_required_minus_available [OF demo_final_reachable m] demo_final_reachable m
  show ?thesis by simp
qed

text \<open>
  Claim C2. In every reachable state the paths given to the extractor are an initial
  segment of the paths put on the queue, in the same order, so none is extracted twice;
  and when \<^verbatim>\<open>check\<close> has computed the Missing Set, every enumerated path has been put on
  the queue and extracted exactly once, the queue is empty, its counter is zero, and the
  worker waits: the index that was read is the one of the completed extraction.
\<close>

theorem report_only_after_queue_drained:
  assumes "reachable fs s"
  shows "(\<exists>rest. submitted s = processed s @ rest)
       \<and> (main s = Finished m \<longrightarrow>
            processed s = all_submitted fs \<and> submitted s = all_submitted fs
            \<and> job_queue s = [] \<and> unfinished_tasks s = 0 \<and> worker s = Idle
            \<and> lib2required_by s =
                lib2required_by (fst (worker_loop fs (all_submitted fs) (init fs))))"
proof -
  from assms have "queue_inv s" by (rule queue_inv_reachable)
  then have "\<exists>rest. submitted s = processed s @ rest"
    by (cases "worker s") (simp_all add: queue_inv_def)
  moreover have "processed s = all_submitted fs \<and> submitted s = all_submitted fs
            \<and> job_queue s = [] \<and> unfinished_tasks s = 0 \<and> worker s = Idle
            \<and> lib2required_by s =
                lib2required_by (fst (worker_loop fs (all_submitted fs) (init fs)))"
    if "main s = Finished m"
    using finished_drained [OF assms that] finished_worker_loop [OF assms that] by simp
  ultimately show ?thesis by blast
qed

text \<open>
  The theorem at a concrete run.
\<close>

theorem report_only_after_queue_drained_witness:
  "reachable demo_fs demo_final
   \<and> main demo_final = Finished {''libbaz.so.2'', ''libqux.so'', ''libonly.so.3''}
   \<and> processed demo_final = all_submitted demo_fs
   \<and> processed demo_final = demo_paths
   \<and> job_queue demo_final = [] \<and> worker demo_final = Idle"
proof -
  have m: "main demo_final = Finished {''libbaz.so.2'', ''libqux.so'', ''libonly.so.3''}"
    by (simp add: demo_final_def)
  have "processed demo_final = demo_paths" by (simp add: demo_final_def)
  with report_only_after_queue_drained [OF demo_final_reachable,
      of "{''libbaz.so.2'', ''libqux.so'', ''libonly.so.3''}"] demo_final_reachable m
  show ?thesis by simp
qed

text \<open>
  Claim C3 (the code departs from it). The second alternative of the pattern has no
  end anchor and \<^verbatim>\<open>re.match\<close> matches a prefix, so a name that merely contains a
  versioned shared-object name and goes on after it is matched: the debugger script
  \<^verbatim>\<open>libstdc++.so.6.0.30-gdb.py\<close> is added to the Available Set and submitted for
  extraction, although it neither ends in \<^verbatim>\<open>.so\<close> nor in numeric version components.
\<close>

theorem versioned_pattern_not_anchored:
  "re_match somatching ''libstdc++.so.6.0.30-gdb.py''
   \<and> enumerate_shared_libs gdb_fs (init gdb_fs)
       = ({''libstdc++.so.6.0.30-gdb.py''},
          [''/usr/share/gdb/auto-load/libstdc++.so.6.0.30-gdb.py''])"
  by (simp add: enumerate_shared_libs_def lib_candidates_def walk_multi_dir_def init_def
      gdb_fs_def path_join_def somatching_def Plus_def is_digit_def)

text \<open>
  Claim C4, as stated, fails where a binary root lies under a library root (as
  \<^verbatim>\<open>/usr/bin\<close> under \<^verbatim>\<open>/usr\<close>): the symbolic link \<^verbatim>\<open>/usr/bin/libx.so\<close> is under a binary
  root, and its base name is in the Available Set at the end of the run.
\<close>

theorem binary_root_symlink_counterexample:
  "islink demo_fs ''/usr/bin/libx.so''
   \<and> ''/usr/bin/libx.so'' \<in> set (bin_candidates demo_fs (bindirs (init demo_fs)))
   \<and> reachable demo_fs demo_final
   \<and> ''libx.so'' \<in> found demo_final"
  using demo_final_reachable
  by (simp add: demo_bin_candidates) (simp add: demo_fs_def demo_final_def)

text \<open>
  Claim C4, amended. A symbolic link is never submitted for extraction, under whichever
  root it lies; at the end of the run the base name of every candidate of the library
  scan, symbolic link or not, is in the Available Set; and the scan of the binary roots
  adds nothing to the Available Set: a base name is available only if a file of that
  name matching the pattern lies under a library root.
\<close>

theorem symlinks_available_not_submitted:
  assumes "reachable fs s" and "islink fs fullname"
  shows "fullname \<notin> set (submitted s)
       \<and> (main s = Finished m \<longrightarrow> (fullname, fname) \<in> set (lib_candidates fs (libdirs s))
            \<longrightarrow> fname \<in> found s)
       \<and> (fname \<in> found s \<longrightarrow> fname \<in> lib_names fs)"
proof -
  from assms(1) have mi: "main_inv fs s" by (rule main_inv_reachable)
  have "fullname \<notin> set (submitted s)"
    using submitted_not_links [OF assms(1)] assms(2) by blast
  moreover have "fname \<in> found s"
    if "main s = Finished m" "(fullname, fname) \<in> set (lib_candidates fs (libdirs s))"
    using mi that by (force simp: main_inv_def all_lib_candidates_def)
  moreover have "fname \<in> found s \<longrightarrow> fname \<in> lib_names fs"
    using found_subset_lib_names [OF assms(1)] by blast
  ultimately show ?thesis by blast
qed

text \<open>
  The theorem at a concrete run.
\<close>

theorem symlinks_available_not_submitted_witness:
  "reachable demo_fs demo_final \<and> islink demo_fs ''/usr/lib/libln.so''
   \<and> main demo_final = Finished {''libbaz.so.2'', ''libqux.so'', ''libonly.so.3''}
   \<and> (''/usr/lib/libln.so'', ''libln.so'') \<in> set (lib_candidates demo_fs (libdirs demo_final))
   \<and> ''/usr/lib/libln.so'' \<notin> set (submitted demo_final)
   \<and> ''libln.so'' \<in> found demo_final
   \<and> ''libln.so'' \<in> lib_names demo_fs
   \<and> islink demo_fs ''/bin/sh''
   \<and> ''/bin/sh'' \<in> set (bin_candidates demo_fs (bindirs (init demo_fs)))
   \<and> ''/bin/sh'' \<notin> set (submitted demo_final)
   \<and> ''sh'' \<notin> found demo_final"
proof -
  have l: "islink demo_fs ''/usr/lib/libln.so''" by (simp add: demo_fs_def)
  have b: "islink demo_fs ''/bin/sh''" by (simp add: demo_fs_def)
  have f: "''sh'' \<notin> found demo_final" by (simp add: demo_final_def)
  have nb: "''/bin/sh'' \<notin> set (submitted demo_final)"
    using symlinks_available_not_submitted [OF demo_final_reachable b] by blast
  have m: "main demo_final = Finished {''libbaz.so.2'', ''libqux.so'', ''libonly.so.3''}"
    by (simp add: demo_final_def)
  have c: "(''/usr/lib/libln.so'', ''libln.so'')
      \<in> set (lib_candidates demo_fs (libdirs demo_final))"
    by (simp add: demo_final_def demo_lib_candidates)
  from symlinks_available_not_submitted [OF demo_final_reachable l,
      of "{''libbaz.so.2'', ''libqux.so'', ''libonly.so.3''}" "''libln.so''"]
    demo_final_reachable l m c b f nb
  show ?thesis by (simp add: demo_bin_candidates)
qed

text \<open>
  Claim C5. For a file that the ELF parser rejects (\<^verbatim>\<open>ELFFile(f)\<close> raises
  \<^verbatim>\<open>ELFError\<close>), \<^verbatim>\<open>collect_needed\<close> returns normally and leaves the state as it was: no
  requirement edge, no warning; the worker's loop goes on with the next items. And
  \<^verbatim>\<open>ELFError\<close> never leaves \<^verbatim>\<open>collect_needed\<close> for a file that could be opened.
\<close>

theorem not_elf_is_silently_empty:
  "(open_rb fs sofile = open_ok (ELFFile_raises ELFError) \<longrightarrow>
      collect_needed fs s sofile = (s, None)
      \<and> worker_loop fs (sofile # items) s = worker_loop fs items s)
   \<and> (open_rb fs sofile \<noteq> open_raises ELFError \<longrightarrow>
      snd (collect_needed fs s sofile) \<noteq> Some ELFError)"
proof -
  have "collect_needed fs s sofile = (s, None)"
    if "open_rb fs sofile = open_ok (ELFFile_raises ELFError)"
    using that by (simp add: collect_needed_def open_and_parse_def)
  moreover have "snd (collect_needed fs s sofile) \<noteq> Some ELFError"
    if "open_rb fs sofile \<noteq> open_raises ELFError"
    using that
    by (auto simp: collect_needed_eq outcome_def escaping_def raised_def opened_def
        split: open_result.splits elffile.splits)
  ultimately show ?thesis by simp
qed

text \<open>
  The theorem at a concrete run.
\<close>

theorem not_elf_is_silently_empty_witness:
  "open_rb demo_fs ''/bin/run.sh'' = open_ok (ELFFile_raises ELFError)
   \<and> open_rb demo_fs ''/bin/run.sh'' \<noteq> open_raises ELFError
   \<and> collect_needed demo_fs (init demo_fs) ''/bin/run.sh'' = (init demo_fs, None)
   \<and> worker_loop demo_fs [''/bin/run.sh'', ''/bin/secret''] (init demo_fs)
       = worker_loop demo_fs [''/bin/secret''] (init demo_fs)
   \<and> snd (collect_needed demo_fs (init demo_fs) ''/bin/run.sh'') \<noteq> Some ELFError"
proof -
  have o: "open_rb demo_fs ''/bin/run.sh'' = open_ok (ELFFile_raises ELFError)"
    by (simp add: demo_fs_def demo_open_def)
  then have n: "open_rb demo_fs ''/bin/run.sh'' \<noteq> open_raises ELFError" by simp
  from not_elf_is_silently_empty [of demo_fs "''/bin/run.sh''" "init demo_fs"
      "[''/bin/secret'']"] o n
  show ?thesis by simp
qed

text \<open>
  Claim C6. For a file whose \<^verbatim>\<open>open\<close> raises \<^verbatim>\<open>PermissionError\<close>, \<^verbatim>\<open>collect_needed\<close>
  returns normally; the state changes by exactly one warning, about that path, and by
  nothing else (no requirement edge); the worker's loop goes on with the next items.
\<close>

theorem permission_denied_warns_once:
  assumes "open_rb fs sofile = open_raises PermissionError"
  shows "collect_needed fs s sofile
           = (s\<lparr>warnings := warnings s @ [permission_text sofile]\<rparr>, None)
       \<and> worker_loop fs (sofile # items) s
           = worker_loop fs items (s\<lparr>warnings := warnings s @ [permission_text sofile]\<rparr>)"
proof -
  have "collect_needed fs s sofile
           = (s\<lparr>warnings := warnings s @ [permission_text sofile]\<rparr>, None)"
    using assms by (simp add: collect_needed_def open_and_parse_def warn_def)
  then show ?thesis by simp
qed

text \<open>
  The theorem at a concrete run.
\<close>

theorem permission_denied_warns_once_witness:
  "open_rb demo_fs ''/bin/secret'' = open_raises PermissionError
   \<and> collect_needed demo_fs (init demo_fs) ''/bin/secret''
       = ((init demo_fs)\<lparr>warnings :=
             [''Could not open /bin/secret; please check permissions'']\<rparr>, None)
   \<and> worker_loop demo_fs [''/bin/secret'', ''/bin/libonly.so.3''] (init demo_fs)
       = worker_loop demo_fs [''/bin/libonly.so.3'']
           ((init demo_fs)\<lparr>warnings :=
              [''Could not open /bin/secret; please check permissions'']\<rparr>)"
proof -
  have o: "open_rb demo_fs ''/bin/secret'' = open_raises PermissionError"
    by (simp add: demo_fs_def demo_open_def)
  have w: "warnings (init demo_fs) = []" by (simp add: init_def Let_def)
  from permission_denied_warns_once [OF o, of "init demo_fs" "[''/bin/libonly.so.3'']"] o w
  show ?thesis by (simp add: permission_text_def)
qed

text \<open>
  Claim C7. For an object whose parse runs to its end, \<^verbatim>\<open>collect_needed\<close> appends the
  path once for each \<^verbatim>\<open>DT_NEEDED\<close> entry, in the order of the entries, duplicates
  included: the list of a name grows by as many copies of the path as the name has
  entries. And at the end of a run the list of requirers of every name is made of the
  submitted paths in their order of submission, each repeated as often as it named the
  library.
\<close>

theorem needed_edges_keep_order:
  "(open_rb fs sofile = open_ok (ELFFile secs) \<longrightarrow> sections_exn secs = None \<longrightarrow>
      collect_needed fs s sofile
        = (s\<lparr>lib2required_by :=
               fold (\<lambda>name d. dict_append d name sofile) (needed_names secs)
                 (lib2required_by s)\<rparr>, None)
      \<and> (\<forall>name. dict_get (lib2required_by (fst (collect_needed fs s sofile))) name
             = dict_get (lib2required_by s) name
               @ replicate (count_list (needed_names secs) name) sofile))
   \<and> (reachable fs t \<longrightarrow> main t = Finished m \<longrightarrow>
      (\<forall>name. dict_get (lib2required_by t) name
         = concat (map (\<lambda>p. replicate (count_list (contributed fs p) name) p)
                       (all_submitted fs))))"
proof -
  have "collect_needed fs s sofile
        = (s\<lparr>lib2required_by :=
               fold (\<lambda>name d. dict_append d name sofile) (needed_names secs)
                 (lib2required_by s)\<rparr>, None)
      \<and> (\<forall>name. dict_get (lib2required_by (fst (collect_needed fs s sofile))) name
             = dict_get (lib2required_by s) name
               @ replicate (count_list (needed_names secs) name) sofile)"
    if o: "open_rb fs sofile = open_ok (ELFFile secs)" and ok: "sections_exn secs = None"
  proof -
    from o ok have "contributed fs sofile = needed_names secs"
      by (simp add: contributed_def contributed_sections_ok)
    moreover from o ok have "outcome fs sofile = None" "warned fs sofile = []"
      by (simp_all add: outcome_def warned_def escaping_def raised_def)
    ultimately show ?thesis
      by (simp add: collect_needed_eq dict_get_add_edges) (simp add: add_edges_def)
  qed
  moreover have "dict_get (lib2required_by t) name
         = concat (map (\<lambda>p. replicate (count_list (contributed fs p) name) p)
                       (all_submitted fs))"
    if "reachable fs t" "main t = Finished m" for name
    by (simp add: finished_index [OF that] dict_get_edges_of) (simp add: dict_get_def)
  ultimately show ?thesis by blast
qed

text \<open>
  The theorem at a concrete run.
\<close>

theorem needed_edges_keep_order_witness:
  "open_rb demo_fs ''/usr/bin/tool''
     = open_ok (ELFFile (Yield (DynamicSection
          (Yield (Tag ''DT_NEEDED'' ''libqux.so'')
            (Yield (Tag ''DT_NEEDED'' ''libfoo.so.1'')
              (Yield (Tag ''DT_NEEDED'' ''libqux.so'') Stop)))) Stop))
   \<and> lib2required_by (fst (collect_needed demo_fs (init demo_fs) ''/usr/bin/tool''))
       = [(''libqux.so'', [''/usr/bin/tool'', ''/usr/bin/tool'']),
          (''libfoo.so.1'', [''/usr/bin/tool''])]
   \<and> reachable demo_fs demo_final
   \<and> main demo_final = Finished {''libbaz.so.2'', ''libqux.so'', ''libonly.so.3''}
   \<and> dict_get (lib2required_by demo_final) ''libqux.so''
       = concat (map (\<lambda>p. replicate (count_list (contributed demo_fs p) ''libqux.so'') p)
                     (all_submitted demo_fs))
   \<and> dict_get (lib2required_by demo_final) ''libqux.so''
       = [''/usr/bin/tool'', ''/usr/bin/tool'', ''/bin/app'']"
proof -
  let ?secs = "Yield (DynamicSection
          (Yield (Tag ''DT_NEEDED'' ''libqux.so'')
            (Yield (Tag ''DT_NEEDED'' ''libfoo.so.1'')
              (Yield (Tag ''DT_NEEDED'' ''libqux.so'') Stop)))) Stop"
  have o: "open_rb demo_fs ''/usr/bin/tool'' = open_ok (ELFFile ?secs)"
    by (simp add: demo_fs_def demo_open_def)
  have ok: "sections_exn ?secs = None" by simp
  have n: "needed_names ?secs = [''libqux.so'', ''libfoo.so.1'', ''libqux.so'']"
    by (simp add: needed_names_def dynamic_tags_def)
  have i: "lib2required_by (init demo_fs) = []" by (simp add: init_def Let_def)
  have m: "main demo_final = Finished {''libbaz.so.2'', ''libqux.so'', ''libonly.so.3''}"
    by (simp add: demo_final_def)
  have g: "dict_get (lib2required_by demo_final) ''libqux.so''
       = [''/usr/bin/tool'', ''/usr/bin/tool'', ''/bin/app'']"
    by (simp add: demo_final_def demo_index_def dict_get_def)
  from needed_edges_keep_order [of demo_fs "''/usr/bin/tool''" ?secs "init demo_fs"
      demo_final "{''libbaz.so.2'', ''libqux.so'', ''libonly.so.3''}"]
    o ok demo_final_reachable m
  have "collect_needed demo_fs (init demo_fs) ''/usr/bin/tool''
        = ((init demo_fs)\<lparr>lib2required_by :=
               fold (\<lambda>name d. dict_append d name ''/usr/bin/tool'') (needed_names ?secs)
                 (lib2required_by (init demo_fs))\<rparr>, None)"
    and "dict_get (lib2required_by demo_final) ''libqux.so''
       = concat (map (\<lambda>p. replicate (count_list (contributed demo_fs p) ''libqux.so'') p)
                     (all_submitted demo_fs))"
    by simp_all
  with o demo_final_reachable m g show ?thesis
    by (simp add: n i)
qed

text \<open>
  Claim C8. Two runs of the program on the same file system (each on a fresh
  \<^verbatim>\<open>BrokenFinder\<close>, as the entry point makes one), whatever the interleaving of their
  threads, end in the same state: the same Missing Set, the same requirers for every
  name, the same report lines.
\<close>

theorem finished_runs_agree:
  assumes "reachable fs s1" and "main s1 = Finished m1"
    and "reachable fs s2" and "main s2 = Finished m2"
  shows "m1 = m2
       \<and> (\<forall>lib. dict_get (lib2required_by s1) lib = dict_get (lib2required_by s2) lib)
       \<and> printed s1 = printed s2 \<and> s1 = s2"
proof -
  have "check fs = Some s1" using assms(1,2) by (rule finished_is_check)
  moreover have "check fs = Some s2" using assms(3,4) by (rule finished_is_check)
  ultimately have "s1 = s2" by simp
  with assms(2,4) show ?thesis by simp
qed

text \<open>
  The theorem at a concrete run.
\<close>

theorem finished_runs_agree_witness:
  "reachable demo_fs demo_final
   \<and> main demo_final = Finished {''libbaz.so.2'', ''libqux.so'', ''libonly.so.3''}
   \<and> reachable demo_fs (run_for demo_fs 35)
   \<and> main (run_for demo_fs 35) = Finished {''libbaz.so.2'', ''libqux.so'', ''libonly.so.3''}
   \<and> printed demo_final = printed (run_for demo_fs 35)"
proof -
  have m: "main demo_final = Finished {''libbaz.so.2'', ''libqux.so'', ''libonly.so.3''}"
    by (simp add: demo_final_def)
  have r2: "reachable demo_fs (run_for demo_fs 35)" by (rule run_for_reachable)
  have m2: "main (run_for demo_fs 35)
      = Finished {''libbaz.so.2'', ''libqux.so'', ''libonly.so.3''}"
    unfolding run_for_demo by (rule m)
  from finished_runs_agree [OF demo_final_reachable m r2 m2]
  have "printed demo_final = printed (run_for demo_fs 35)" by blast
  with demo_final_reachable m r2 m2 show ?thesis by blast
qed

text \<open>
  Claim C9. In every reachable state the Available Set is a subset of the base names
  under the library roots that match the pattern; so at the end of a run a required
  name that is no such base name, even if a file of that name lies under a binary
  root, is in the Missing Set.
\<close>

theorem only_library_roots_make_available:
  assumes "reachable fs s"
  shows "found s \<subseteq> lib_names fs
       \<and> (main s = Finished m \<longrightarrow>
            (\<forall>name \<in> keys (lib2required_by s). name \<notin> lib_names fs \<longrightarrow> name \<in> m))"
proof -
  have f: "found s \<subseteq> lib_names fs" using assms by (rule found_subset_lib_names)
  moreover have "name \<in> m"
    if "main s = Finished m" "name \<in> keys (lib2required_by s)" "name \<notin> lib_names fs" for name
  proof -
    from main_inv_reachable [OF assms] that(1)
    have "m = keys (lib2required_by s) - found s" by (simp add: main_inv_def)
    with that(2,3) f show ?thesis by blast
  qed
  ultimately show ?thesis by blast
qed

text \<open>
  The theorem at a concrete run.
\<close>

theorem only_library_roots_make_available_witness:
  "reachable demo_fs demo_final
   \<and> main demo_final = Finished {''libbaz.so.2'', ''libqux.so'', ''libonly.so.3''}
   \<and> ''/bin/libonly.so.3'' \<in> set (bin_candidates demo_fs (bindirs (init demo_fs)))
   \<and> re_match somatching ''libonly.so.3''
   \<and> ''libonly.so.3'' \<in> keys (lib2required_by demo_final)
   \<and> ''libonly.so.3'' \<notin> lib_names demo_fs
   \<and> ''libonly.so.3'' \<notin> found demo_final
   \<and> ''libonly.so.3'' \<in> {''libbaz.so.2'', ''libqux.so'', ''libonly.so.3''}
   \<and> found demo_final \<subseteq> lib_names demo_fs"
proof -
  have m: "main demo_final = Finished {''libbaz.so.2'', ''libqux.so'', ''libonly.so.3''}"
    by (simp add: demo_final_def)
  have k: "''libonly.so.3'' \<in> keys (lib2required_by demo_final)"
    by (simp add: demo_final_def demo_index_def keys_def)
  have n: "''libonly.so.3'' \<notin> lib_names demo_fs" by (simp add: demo_lib_names)
  have r: "re_match somatching ''libonly.so.3''"
    by (simp add: somatching_def Plus_def is_digit_def)
  have f: "''libonly.so.3'' \<notin> found demo_final" by (simp add: demo_final_def)
  from only_library_roots_make_available [OF demo_final_reachable,
      of "{''libbaz.so.2'', ''libqux.so'', ''libonly.so.3''}"] m k n r f demo_final_reachable
  show ?thesis by (simp add: demo_bin_candidates)
qed

text \<open>
  Claim C10. When \<^verbatim>\<open>open\<close> or the parser raises an exception other than
  \<^verbatim>\<open>PermissionError\<close> and \<^verbatim>\<open>ELFError\<close> for a path, the exception leaves
  \<^verbatim>\<open>collect_needed\<close>. If the path is one of those that the run submits, \<^verbatim>\<open>check\<close> as a
  function has no result and no reachable state is one where \<^verbatim>\<open>join\<close> has returned;
  and in a state where the path has been extracted, the worker thread has ended with
  that exception and the counter of unfinished tasks is positive.
\<close>

theorem other_errors_end_the_worker:
  assumes "raised fs p = Some e" and "e \<noteq> PermissionError" and "e \<noteq> ELFError"
    and "reachable fs t"
  shows "snd (collect_needed fs s p) = Some e
       \<and> (p \<in> set (all_submitted fs) \<longrightarrow> check fs = None \<and> (\<forall>m. main t \<noteq> Finished m))
       \<and> (p \<in> set (processed t) \<longrightarrow>
            worker t = Crashed e \<and> 0 < unfinished_tasks t \<and> (\<forall>m. main t \<noteq> Finished m))"
proof -
  from assms(1-3) have oc: "outcome fs p = Some e"
    by (simp add: outcome_def escaping_raised)
  have qi: "queue_inv t" and mi: "main_inv fs t" and di: "data_inv fs t"
    using assms(4) by (rule queue_inv_reachable, rule main_inv_reachable, rule data_inv_reachable)
  have 1: "snd (collect_needed fs s p) = Some e"
    by (simp add: collect_needed_eq oc)
  have 2: "check fs = None \<and> (\<forall>m. main t \<noteq> Finished m)" if "p \<in> set (all_submitted fs)"
  proof -
    from that oc have "check fs = None" by (rule raising_check_None)
    then show ?thesis using check_None_never_finished [OF _ assms(4)] by blast
  qed
  have 3: "worker t = Crashed e \<and> 0 < unfinished_tasks t \<and> (\<forall>m. main t \<noteq> Finished m)"
    if pt: "p \<in> set (processed t)"
  proof -
    from di pt oc obtain e' where c: "worker t = Crashed e'"
      by (fastforce simp: data_inv_def)
    with di have ne: "processed t \<noteq> []" and l: "outcome fs (last (processed t)) = Some e'"
      and b: "\<forall>q \<in> set (butlast (processed t)). outcome fs q = None"
      by (simp_all add: data_inv_def)
    from b oc have "p \<notin> set (butlast (processed t))" by auto
    moreover from ne have "processed t = butlast (processed t) @ [last (processed t)]"
      by simp
    ultimately have "p = last (processed t)"
      using pt by (metis Un_iff empty_iff empty_set set_ConsD set_append)
    with l oc have "e' = e" by simp
    moreover from qi c have "0 < unfinished_tasks t" by (simp add: queue_inv_def)
    moreover from busy_not_finished [OF qi mi] c have "\<forall>m. main t \<noteq> Finished m" by simp
    ultimately show ?thesis using c by simp
  qed
  from 1 2 3 show ?thesis by blast
qed

text \<open>
  The theorem at a concrete run.
\<close>

theorem other_errors_end_the_worker_witness:
  "raised gone_fs ''/bin/gone'' = Some FileNotFoundError
   \<and> reachable gone_fs gone_crashed
   \<and> ''/bin/gone'' \<in> set (all_submitted gone_fs)
   \<and> ''/bin/gone'' \<in> set (processed gone_crashed)
   \<and> snd (collect_needed gone_fs (init gone_fs) ''/bin/gone'') = Some FileNotFoundError
   \<and> check gone_fs = None
   \<and> worker gone_crashed = Crashed FileNotFoundError
   \<and> main gone_crashed = Joining
   \<and> unfinished_tasks gone_crashed = 2"
proof -
  have r: "raised gone_fs ''/bin/gone'' = Some FileNotFoundError"
    by (simp add: raised_def gone_fs_def)
  have a: "''/bin/gone'' \<in> set (all_submitted gone_fs)"
    by (simp add: all_submitted_def enumerate_shared_libs_def enumerate_binaries_def
        lib_candidates_def bin_candidates_def walk_multi_dir_def init_def Let_def gone_fs_def
        path_join_def)
  have p: "''/bin/gone'' \<in> set (processed gone_crashed)"
    "main gone_crashed = Joining" "unfinished_tasks gone_crashed = 2"
    by (simp_all add: gone_crashed_def)
  from other_errors_end_the_worker [OF r _ _ gone_crashed_reachable, of "init gone_fs"]
    r a p gone_crashed_reachable
  show ?thesis by simp
qed

end
